theory Spec2Isabelle
  imports Main "HOL-Library.Word" "HOL-Library.Multiset"
begin

unbundle bit_operations_syntax

chapter \<open>The chunk manager of the association pipeline\<close>

text \<open>
  A shallow embedding of the chunk manager (\<^verbatim>\<open>ChunkManagerImpl.cc\<close>), of the bit set
  behind its block allocator (\<^verbatim>\<open>Bitset.h\<close>, \<^verbatim>\<open>Bitset.cc\<close>) and of the bounded queue
  of interested visits (\<^verbatim>\<open>Fifo.h\<close>). State is passed explicitly. A function that can
  throw returns its outcome together with the state as the throw left it.
\<close>

section \<open>Outcomes\<close>

text \<open>
  The exceptions of the source, plus three outcomes that C++ leaves implicit: a failed
  \<^verbatim>\<open>assert\<close>, an array access out of bounds, and a loop that does not end.
\<close>

datatype error =
    OutOfRange
  | LengthError
  | BadAlloc
  | InvalidParameter
  | AssertionFailure
  | OutOfBounds
  | Diverges

section \<open>The hash function\<close>

text \<open>\<^verbatim>\<open>hash(uint64_t)\<close>: each assignment to \<^verbatim>\<open>key\<close> is one binding.\<close>

definition hash :: "64 word \<Rightarrow> 32 word" where
  "hash key0 =
    (let key1 = (NOT key0) + (push_bit 18 key0);
         key2 = key1 XOR (drop_bit 31 key1);
         key3 = key2 * 21;
         key4 = key3 XOR (drop_bit 11 key3);
         key5 = key4 + (push_bit 6 key4);
         key6 = key5 XOR (drop_bit 22 key5)
     in ucast key6)"

text \<open>
  The mix as the specification words it, on natural numbers below \<open>2 ^ 64\<close> with every
  wrap-around written out.
\<close>

definition wang_mix_spec :: "nat \<Rightarrow> nat" where
  "wang_mix_spec k0 =
    (let k1 = ((2 ^ 64 - 1 - k0) + (k0 * 2 ^ 18) mod 2 ^ 64) mod 2 ^ 64;
         k2 = k1 XOR (k1 div 2 ^ 31);
         k3 = (k2 * 21) mod 2 ^ 64;
         k4 = k3 XOR (k3 div 2 ^ 11);
         k5 = (k4 + (k4 * 2 ^ 6) mod 2 ^ 64) mod 2 ^ 64;
         k6 = k5 XOR (k5 div 2 ^ 22)
     in k6 mod 2 ^ 32)"


section \<open>The bit set\<close>

text \<open>
  \<^verbatim>\<open>Bitset<Word, NumBits>\<close> is an array of \<^verbatim>\<open>NUM_WORDS\<close> words. The word type is a template
  parameter, instantiated at 8, 16, 32 and 64 bits; the model is generic in the word length
  \<open>LENGTH('a)\<close>, which is \<^verbatim>\<open>BITS_PER_WORD\<close>. For these four lengths shifting right by
  \<^verbatim>\<open>BITS_PER_WORD_LOG2\<close> is division by \<open>LENGTH('a)\<close> and masking with
  \<^verbatim>\<open>BITS_PER_WORD - 1\<close> is the remainder. \<^verbatim>\<open>WORD_MASK\<close> is the word of all ones.
  The \<^verbatim>\<open>int\<close> counters of the source never leave the range of \<^verbatim>\<open>int\<close> (they are bounded by
  the number of bits and by the number of bits to set), so they are integers here; those
  that cannot be negative are natural numbers.
\<close>

definition WORD_MASK :: "'a::len word" where
  "WORD_MASK = - 1"

definition NUM_WORDS :: "'a::len itself \<Rightarrow> nat \<Rightarrow> nat" where
  "NUM_WORDS T NumBits = (NumBits + (LENGTH('a) - 1)) div LENGTH('a)"

definition wordForBit :: "'a::len itself \<Rightarrow> nat \<Rightarrow> nat" where
  "wordForBit T i = i div LENGTH('a)"

definition maskForBit :: "nat \<Rightarrow> 'a::len word" where
  "maskForBit i = push_bit (i mod LENGTH('a)) 1"

text \<open>\<^verbatim>\<open>Bitset::test(i)\<close>.\<close>

definition test :: "'a::len word list \<Rightarrow> nat \<Rightarrow> bool" where
  "test words i = (words ! wordForBit TYPE('a) i AND maskForBit i \<noteq> 0)"

text \<open>
  \<^verbatim>\<open>populationCount\<close>, in the build that has the compiler's population count: the number
  of one bits of the word.
\<close>

definition populationCount :: "'a::len word \<Rightarrow> nat" where
  "populationCount val = length (filter (bit val) [0..<LENGTH('a)])"

text \<open>
  \<^verbatim>\<open>detail::set\<close>, first pass: the loop
  \<^verbatim>\<open>for (i = 0; i < nwords - special && zeroes > 0; ++i)\<close>, started at \<open>i\<close> with bound
  \<open>lim\<close>. It returns the final \<open>i\<close> and \<open>zeroes\<close>.
\<close>

function countZeroes :: "'a::len word list \<Rightarrow> nat \<Rightarrow> nat \<Rightarrow> int \<Rightarrow> nat \<times> int" where
  "countZeroes words lim i zeroes =
    (if i < lim \<and> zeroes > 0
     then countZeroes words lim (i + 1)
            (zeroes - (int LENGTH('a) - int (populationCount (words ! i AND WORD_MASK))))
     else (i, zeroes))"
  by pat_completeness auto
termination
  by (relation "measure (\<lambda>(words, lim, i, zeroes). lim - i)") auto

text \<open>
  Second pass, inner loop over the bits \<open>j\<close> of word \<open>i\<close>, with the running \<open>bitmask\<close>
  (\<^verbatim>\<open>mask\<close> in the source). The \<^verbatim>\<open>break\<close> is the branch that returns at once.
\<close>

function setWord ::
  "int list \<Rightarrow> 'a::len word \<Rightarrow> int \<Rightarrow> nat \<Rightarrow> 'a word \<Rightarrow> nat \<Rightarrow> int \<Rightarrow> int list \<times> 'a word \<times> int" where
  "setWord indexes w numBitsToSet i bitmask j zeroes =
    (if j < LENGTH('a) then
       (if w AND bitmask = 0 then
          (let indexes' = indexes[nat zeroes := int (i * LENGTH('a) + j)];
               zeroes' = zeroes + 1;
               w' = w OR bitmask
           in if zeroes' = numBitsToSet then (indexes', w', zeroes')
              else setWord indexes' w' numBitsToSet i (push_bit 1 bitmask) (j + 1) zeroes')
        else setWord indexes w numBitsToSet i (push_bit 1 bitmask) (j + 1) zeroes)
     else (indexes, w, zeroes))"
  by pat_completeness auto
termination
  by (relation "measure (\<lambda>(indexes, w, k, i, bitmask, j, zeroes). LENGTH('a) - j)") auto

text \<open>
  Second pass, outer loop \<^verbatim>\<open>for (int i = 0; zeroes < numBitsToSet; ++i)\<close>. The source puts
  no bound on \<open>i\<close>: reading a word past the end of the array is the outcome
  \<open>OutOfBounds\<close>.
\<close>

function setLoop ::
  "int list \<Rightarrow> 'a::len word list \<Rightarrow> int \<Rightarrow> nat \<Rightarrow> int \<Rightarrow> error + (bool \<times> int list \<times> 'a word list)" where
  "setLoop indexes words numBitsToSet i zeroes =
    (if zeroes < numBitsToSet then
       (if length words \<le> i then Inl OutOfBounds
        else
          (let w = words ! i AND WORD_MASK
           in if w = WORD_MASK then setLoop indexes words numBitsToSet (i + 1) zeroes
              else
                (case setWord indexes w numBitsToSet i 1 0 zeroes of
                   (indexes', w', zeroes') \<Rightarrow>
                     setLoop indexes' (words[i := w']) numBitsToSet (i + 1) zeroes')))
     else Inr (True, indexes, words))"
  by pat_completeness auto
termination
  by (relation "measure (\<lambda>(indexes, words, k, i, zeroes). length words - i)") auto

text \<open>
  The body of \<^verbatim>\<open>detail::set\<close> after its two assertions. The result is the returned flag,
  the array \<^verbatim>\<open>indexes\<close> and the words.
\<close>

definition set_body ::
  "int list \<Rightarrow> 'a::len word list \<Rightarrow> int \<Rightarrow> nat \<Rightarrow> error + (bool \<times> int list \<times> 'a word list)" where
  "set_body indexes words numBitsToSet numBits =
    (let special = (numBits mod LENGTH('a) > 0);
         lastw = NOT ((maskForBit numBits :: 'a word) - 1);
         nwords = (numBits + (LENGTH('a) - 1)) div LENGTH('a);
         (i, zeroes) = countZeroes words (nwords - (if special then 1 else 0)) 0 numBitsToSet;
         zeroes = (if zeroes > 0 \<and> special
                   then zeroes - (int LENGTH('a)
                          - int (populationCount ((words ! i AND WORD_MASK) OR lastw)))
                   else zeroes)
     in if zeroes > 0 then Inr (False, indexes, words)
        else setLoop indexes words numBitsToSet 0 0)"

text \<open>
  \<^verbatim>\<open>detail::set\<close> with its assertions
  \<^verbatim>\<open>assert(words != 0 && numBits > 0)\<close> and \<^verbatim>\<open>assert(indexes != 0 && numBitsToSet > 0)\<close>.
\<close>

definition detail_set ::
  "int list \<Rightarrow> 'a::len word list \<Rightarrow> int \<Rightarrow> nat \<Rightarrow> error + (bool \<times> int list \<times> 'a word list)" where
  "detail_set indexes words numBitsToSet numBits =
    (if \<not> numBits > 0 then Inl AssertionFailure
     else if \<not> numBitsToSet > 0 then Inl AssertionFailure
     else set_body indexes words numBitsToSet numBits)"

text \<open>\<^verbatim>\<open>Bitset::set(int * indexes, int numBits)\<close>.\<close>

definition Bitset_set ::
  "nat \<Rightarrow> 'a::len word list \<Rightarrow> int list \<Rightarrow> int \<Rightarrow> error + (bool \<times> int list \<times> 'a word list)" where
  "Bitset_set NumBits bits indexes numBits = detail_set indexes bits numBits NumBits"

text \<open>
  \<^verbatim>\<open>detail::reset\<close>: the loop over the indexes, with its assertion
  \<^verbatim>\<open>assert(j >= 0 && j < numBits)\<close>.
\<close>

fun resetLoop :: "'a::len word list \<Rightarrow> nat list \<Rightarrow> nat \<Rightarrow> error + 'a word list" where
  "resetLoop words [] numBits = Inr words"
| "resetLoop words (j # js) numBits =
    (if \<not> j < numBits then Inl AssertionFailure
     else resetLoop
            (words[wordForBit TYPE('a) j := words ! wordForBit TYPE('a) j AND NOT (maskForBit j)])
            js numBits)"

definition detail_reset :: "'a::len word list \<Rightarrow> nat list \<Rightarrow> nat \<Rightarrow> error + 'a word list" where
  "detail_reset words indexes numBits =
    (if \<not> numBits > 0 then Inl AssertionFailure else resetLoop words indexes numBits)"

subsection \<open>What the contract of the bit set speaks of\<close>

text \<open>The indexes of the zero bits among the first \<open>numBits\<close> bits, in ascending order.\<close>

definition zeroBits :: "'a::len word list \<Rightarrow> nat \<Rightarrow> nat list" where
  "zeroBits words numBits = filter (\<lambda>i. \<not> test words i) [0..<numBits]"

text \<open>Auxiliary functions of the proofs about the two passes.\<close>

definition zeroPositions :: "'a::len word \<Rightarrow> nat \<Rightarrow> nat list" where
  "zeroPositions w j = filter (\<lambda>b. \<not> bit w b) [j..<LENGTH('a)]"

definition writeAll :: "nat \<Rightarrow> int list \<Rightarrow> int list \<Rightarrow> int list" where
  "writeAll p vs xs = fold (\<lambda>(t, v) ys. ys[t := v]) (zip [p..<p + length vs] vs) xs"

definition orBits :: "nat list \<Rightarrow> 'a::len word \<Rightarrow> 'a word" where
  "orBits bs w = fold (\<lambda>b v. v OR 2 ^ b) bs w"

definition zeroFrom :: "'a::len word list \<Rightarrow> nat \<Rightarrow> nat list" where
  "zeroFrom words i =
     concat (map (\<lambda>j. map (\<lambda>b. j * LENGTH('a) + b) (zeroPositions (words ! j) 0)) [i..<length words])"

definition mark :: "nat list \<Rightarrow> 'a::len word list \<Rightarrow> 'a word list" where
  "mark ps words =
     fold (\<lambda>p ws. ws[p div LENGTH('a) := ws ! (p div LENGTH('a)) OR 2 ^ (p mod LENGTH('a))]) ps words"

definition zeroCount :: "'a::len word list \<Rightarrow> nat \<Rightarrow> nat \<Rightarrow> nat" where
  "zeroCount words i lim = length (concat (map (\<lambda>j. zeroPositions (words ! j) 0) [i..<lim]))"

section \<open>The block allocator\<close>

text \<open>
  The constants of \<^verbatim>\<open>TraitsType\<close> and \<^verbatim>\<open>BLOCK_SIZE\<close> are declared in a header that is not
  part of the sources at hand; they are parameters.
\<close>

record traits =
  MAX_BLOCKS_PER_CHUNK :: nat
  NUM_BLOCKS :: nat
  BLOCK_SIZE :: nat

text \<open>
  \<^verbatim>\<open>BlockAllocator\<close>: the bit set \<^verbatim>\<open>_allocator\<close> over \<^verbatim>\<open>NUM_BLOCKS\<close> bits and the offset
  \<^verbatim>\<open>_offset\<close> of the first block, a \<^verbatim>\<open>size_t\<close>. The mutex serialises the calls and
  has no state of its own here. The type parameter is the word type of the bit set.
\<close>

record 'w BlockAllocator =
  allocator_bits :: "'w list"
  offset :: "64 word"

text \<open>
  \<^verbatim>\<open>BlockAllocator::allocate(size_t * blockOffsets, uint32_t n)\<close>. The test
  \<^verbatim>\<open>n < 0\<close> of the source is false for every unsigned \<open>n\<close>. The local array
  \<^verbatim>\<open>int i[MAX_BLOCKS_PER_CHUNK]\<close> starts with unspecified contents, here zeros.
  A throw leaves the allocator as it is at that point.
\<close>

definition allocate ::
  "traits \<Rightarrow> 64 word list \<Rightarrow> nat \<Rightarrow> 'a::len word BlockAllocator
     \<Rightarrow> (error + 64 word list) \<times> 'a word BlockAllocator" where
  "allocate tr blockOffsets n ba =
    (if n > MAX_BLOCKS_PER_CHUNK tr then (Inl OutOfRange, ba)
     else
       (case Bitset_set (NUM_BLOCKS tr) (allocator_bits ba)
               (replicate (MAX_BLOCKS_PER_CHUNK tr) 0) (int n) of
          Inl e \<Rightarrow> (Inl e, ba)
        | Inr (ok, i, bits') \<Rightarrow>
            (if \<not> ok then (Inl BadAlloc, ba\<lparr>allocator_bits := bits'\<rparr>)
             else (Inr (map (\<lambda>j. offset ba + word_of_int (i ! j) * word_of_nat (BLOCK_SIZE tr)) [0..<n]
                          @ drop n blockOffsets),
                   ba\<lparr>allocator_bits := bits'\<rparr>))))"

text \<open>
  \<^verbatim>\<open>BlockAllocator::free\<close>: the translation of one block offset to a block index, with
  the two assertions of the loop. The subtraction is in \<^verbatim>\<open>size_t\<close>.
\<close>

definition blockIndex :: "traits \<Rightarrow> 64 word \<Rightarrow> 64 word \<Rightarrow> error + nat" where
  "blockIndex tr ofs blockOffset =
    (let off = unat (blockOffset - ofs)
     in if \<not> off < NUM_BLOCKS tr * BLOCK_SIZE tr then Inl AssertionFailure
        else if \<not> off mod BLOCK_SIZE tr = 0 then Inl AssertionFailure
        else Inr (off div BLOCK_SIZE tr))"

fun blockIndexes :: "traits \<Rightarrow> 64 word \<Rightarrow> 64 word list \<Rightarrow> error + nat list" where
  "blockIndexes tr ofs [] = Inr []"
| "blockIndexes tr ofs (b # bs) =
    (case blockIndex tr ofs b of
       Inl e \<Rightarrow> Inl e
     | Inr i \<Rightarrow> (case blockIndexes tr ofs bs of Inl e \<Rightarrow> Inl e | Inr is \<Rightarrow> Inr (i # is)))"

text \<open>
  \<^verbatim>\<open>BlockAllocator::free(size_t const * blockOffsets, uint32_t n)\<close>. A failed assertion
  ends the program; the allocator is then returned as it was.
\<close>

definition free_blocks ::
  "traits \<Rightarrow> 64 word list \<Rightarrow> nat \<Rightarrow> 'a::len word BlockAllocator
     \<Rightarrow> (error + unit) \<times> 'a word BlockAllocator" where
  "free_blocks tr blockOffsets n ba =
    (if \<not> n \<le> MAX_BLOCKS_PER_CHUNK tr then (Inl AssertionFailure, ba)
     else if length blockOffsets < n then (Inl OutOfBounds, ba)
     else
       (case blockIndexes tr (offset ba) (take n blockOffsets) of
          Inl e \<Rightarrow> (Inl e, ba)
        | Inr i \<Rightarrow>
            (case detail_reset (allocator_bits ba) i (NUM_BLOCKS tr) of
               Inl e \<Rightarrow> (Inl e, ba)
             | Inr bits' \<Rightarrow> (Inr (), ba\<lparr>allocator_bits := bits'\<rparr>))))"


section \<open>The bounded queue of visit identifiers\<close>

text \<open>
  \<^verbatim>\<open>Fifo<NumEntries>\<close>: the capacity \<^verbatim>\<open>NumEntries\<close> is the length of the buffer. The fields
  \<^verbatim>\<open>_size\<close>, \<^verbatim>\<open>_back\<close> and \<^verbatim>\<open>_front\<close> are private \<^verbatim>\<open>int\<close>s that no method makes negative;
  they are natural numbers here. Identifiers are \<^verbatim>\<open>int64_t\<close>, kept as 64-bit words: \<open>- 1\<close>
  is the word of all ones.
\<close>

record Fifo =
  buffer :: "64 word list"
  fifo_size :: nat
  fifo_back :: nat
  fifo_front :: nat

definition Fifo_clear :: "Fifo \<Rightarrow> Fifo" where
  "Fifo_clear f = f\<lparr>fifo_size := 0, fifo_back := 0, fifo_front := 0\<rparr>"

definition Fifo_empty :: "Fifo \<Rightarrow> bool" where
  "Fifo_empty f = (fifo_size f = 0)"

definition Fifo_full :: "Fifo \<Rightarrow> bool" where
  "Fifo_full f = (fifo_size f = length (buffer f))"

definition enqueue :: "64 word \<Rightarrow> Fifo \<Rightarrow> error + Fifo" where
  "enqueue elt f =
    (let sz = fifo_size f
     in if sz = length (buffer f) then Inl LengthError
        else
          (let i = fifo_back f
           in Inr (f\<lparr>buffer := (buffer f)[i := elt],
                     fifo_back := (i + 1) AND (length (buffer f) - 1),
                     fifo_size := sz + 1\<rparr>)))"

definition dequeue :: "Fifo \<Rightarrow> error + (64 word \<times> Fifo)" where
  "dequeue f =
    (let sz = fifo_size f
     in if sz = 0 then Inl LengthError
        else
          (let i = fifo_front f;
               elt = buffer f ! i
           in Inr (elt, f\<lparr>fifo_front := (i + 1) AND (length (buffer f) - 1), fifo_size := sz - 1\<rparr>)))"

text \<open>The queued identifiers, oldest first.\<close>

definition fifo_list :: "Fifo \<Rightarrow> 64 word list" where
  "fifo_list f = map (\<lambda>k. buffer f ! ((fifo_front f + k) mod length (buffer f))) [0..<fifo_size f]"

text \<open>
  The state a \<^verbatim>\<open>Fifo\<close> is in between calls: the capacity is a power of two (the static
  assertion of the class), and \<^verbatim>\<open>_back\<close> is \<^verbatim>\<open>_size\<close> places after \<^verbatim>\<open>_front\<close>.
\<close>

definition fifo_ok :: "Fifo \<Rightarrow> bool" where
  "fifo_ok f =
    (list_ex (\<lambda>m. length (buffer f) = 2 ^ m) [0..<Suc (length (buffer f))]
     \<and> fifo_size f \<le> length (buffer f)
     \<and> fifo_front f < length (buffer f)
     \<and> fifo_back f = (fifo_front f + fifo_size f) mod length (buffer f))"

section \<open>The hashed set\<close>

text \<open>
  \<^verbatim>\<open>HashedSet<EntryType, NumEntries>\<close>. An entry carries its identifier, its link
  \<^verbatim>\<open>nextInChain\<close> and the fields of the concrete entry type, the payload. The entry types
  are declared in a header that is not part of the sources at hand; a default-constructed
  entry is a parameter \<open>dflt\<close> wherever the source constructs one. \<^verbatim>\<open>NumEntries\<close> is the
  length of \<open>entries\<close>; the hash table has twice as many buckets.
\<close>

record 'p Entry =
  getId :: "64 word"
  getNextInChain :: int
  payload :: 'p

definition setId :: "64 word \<Rightarrow> 'p Entry \<Rightarrow> 'p Entry" where
  "setId i e = e\<lparr>getId := i\<rparr>"

definition setNextInChain :: "int \<Rightarrow> 'p Entry \<Rightarrow> 'p Entry" where
  "setNextInChain n e = e\<lparr>getNextInChain := n\<rparr>"

record 'p HashedSet =
  hashTable :: "int list"
  entries :: "'p Entry list"
  freeHead :: int
  set_size :: "32 word"

text \<open>
  The constructor. The array of entries is default-constructed first; the loop then
  initialises identifier and link of all entries but the last, and the last entry gets its
  link only.
\<close>

definition HashedSet_new :: "'p Entry \<Rightarrow> nat \<Rightarrow> 'p HashedSet" where
  "HashedSet_new dflt NumEntries =
    \<lparr>hashTable = replicate (2 * NumEntries) (- 1),
     entries = (map (\<lambda>i. setNextInChain (int (i + 1)) (setId (- 1) dflt)) [0..<NumEntries - 1])
                 @ [setNextInChain (- 1) dflt],
     freeHead = 0,
     set_size = 0\<rparr>"

text \<open>\<^verbatim>\<open>hash(id) & (2*NumEntries - 1)\<close>, in \<^verbatim>\<open>uint32_t\<close>.\<close>

definition bucketOf :: "nat \<Rightarrow> 64 word \<Rightarrow> nat" where
  "bucketOf NumEntries i = unat (hash i AND (word_of_nat (2 * NumEntries) - 1))"

text \<open>
  The loop \<^verbatim>\<open>while (i >= 0)\<close> that \<^verbatim>\<open>doFind\<close>, \<^verbatim>\<open>insert\<close>, \<^verbatim>\<open>findOrInsert\<close> and \<^verbatim>\<open>erase\<close>
  share: it follows the chain from \<open>i\<close> until it meets the identifier or a negative link,
  and returns the final \<open>i\<close> and \<^verbatim>\<open>last\<close>. Reading an entry outside the array is the outcome
  \<open>OutOfBounds\<close>. The loop gets as many steps as there are entries: a walk that needs more
  has met some entry twice without finding the identifier, and the loop of the source, which
  changes nothing on its way, then runs forever (\<open>Diverges\<close>).
\<close>

fun walk :: "nat \<Rightarrow> 'p Entry list \<Rightarrow> 64 word \<Rightarrow> int \<Rightarrow> int \<Rightarrow> error + (int \<times> int)" where
  "walk 0 es ident i lst =
    (if i < 0 then Inr (i, lst)
     else if length es \<le> nat i then Inl OutOfBounds
     else if ident = getId (es ! nat i) then Inr (i, lst)
     else Inl Diverges)"
| "walk (Suc fuel) es ident i lst =
    (if i < 0 then Inr (i, lst)
     else if length es \<le> nat i then Inl OutOfBounds
     else if ident = getId (es ! nat i) then Inr (i, lst)
     else walk fuel es ident (getNextInChain (es ! nat i)) i)"

definition walkBucket :: "'p HashedSet \<Rightarrow> 64 word \<Rightarrow> error + (int \<times> int)" where
  "walkBucket hs ident =
     walk (length (entries hs)) (entries hs) ident
       (hashTable hs ! bucketOf (length (entries hs)) ident) (- 1)"

text \<open>\<^verbatim>\<open>doFind\<close>: the pointer it returns is the index of the entry, or \<open>None\<close> for null.\<close>

definition doFind :: "'p HashedSet \<Rightarrow> 64 word \<Rightarrow> error + nat option" where
  "doFind hs ident =
    (case walkBucket hs ident of
       Inl e \<Rightarrow> Inl e
     | Inr (i, lst) \<Rightarrow> Inr (if i \<ge> 0 then Some (nat i) else None))"

text \<open>
  Taking entry \<open>c\<close> off the free list and linking it at the end of the chain of the bucket,
  as \<^verbatim>\<open>insert\<close> and \<^verbatim>\<open>findOrInsert\<close> both do.
\<close>

definition linkNew :: "'p Entry \<Rightarrow> 64 word \<Rightarrow> int \<Rightarrow> int \<Rightarrow> 'p HashedSet \<Rightarrow> 'p HashedSet" where
  "linkNew dflt ident c lst hs =
    (let free' = getNextInChain (entries hs ! nat c);
         bucket = bucketOf (length (entries hs)) ident;
         ht = (if lst < 0 then (hashTable hs)[bucket := c] else hashTable hs);
         es = (if lst < 0 then entries hs
               else (entries hs)[nat lst := setNextInChain c (entries hs ! nat lst)]);
         es' = es[nat c := setNextInChain (- 1) (setId ident dflt)]
     in hs\<lparr>hashTable := ht, entries := es', freeHead := free', set_size := set_size hs + 1\<rparr>)"

definition insert_entry ::
  "'p Entry \<Rightarrow> 64 word \<Rightarrow> 'p HashedSet \<Rightarrow> (error + nat option) \<times> 'p HashedSet" where
  "insert_entry dflt ident hs =
    (if freeHead hs < 0 then (Inr None, hs)
     else
       (case walkBucket hs ident of
          Inl e \<Rightarrow> (Inl e, hs)
        | Inr (i, lst) \<Rightarrow>
            if i \<ge> 0 then (Inr None, hs)
            else
              (let c = freeHead hs
               in if length (entries hs) \<le> nat c then (Inl OutOfBounds, hs)
                  else (Inr (Some (nat c)), linkNew dflt ident c lst hs))))"

definition findOrInsert ::
  "'p Entry \<Rightarrow> 64 word \<Rightarrow> 'p HashedSet \<Rightarrow> (error + (nat option \<times> bool)) \<times> 'p HashedSet" where
  "findOrInsert dflt ident hs =
    (case walkBucket hs ident of
       Inl e \<Rightarrow> (Inl e, hs)
     | Inr (i, lst) \<Rightarrow>
         if i \<ge> 0 then (Inr (Some (nat i), False), hs)
         else
           (let c = freeHead hs
            in if c < 0 then (Inr (None, True), hs)
               else if length (entries hs) \<le> nat c then (Inl OutOfBounds, hs)
               else (Inr (Some (nat c), True), linkNew dflt ident c lst hs)))"

definition erase :: "64 word \<Rightarrow> 'p HashedSet \<Rightarrow> (error + bool) \<times> 'p HashedSet" where
  "erase ident hs =
    (case walkBucket hs ident of
       Inl e \<Rightarrow> (Inl e, hs)
     | Inr (i, lst) \<Rightarrow>
         if i \<ge> 0 then
           (let nxt = getNextInChain (entries hs ! nat i);
                bucket = bucketOf (length (entries hs)) ident;
                ht = (if lst < 0 then (hashTable hs)[bucket := nxt] else hashTable hs);
                es = (if lst < 0 then entries hs
                      else (entries hs)[nat lst := setNextInChain nxt (entries hs ! nat lst)]);
                es' = es[nat i := setNextInChain (freeHead hs) (setId (- 1) (es ! nat i))]
            in (Inr True,
                hs\<lparr>hashTable := ht, entries := es', freeHead := i, set_size := set_size hs - 1\<rparr>))
         else (Inr False, hs))"

text \<open>
  Modelled from the spec: \<^verbatim>\<open>space()\<close>, declared in the missing header, is the number of
  entries that are still free, \<^verbatim>\<open>NumEntries\<close> minus the size.
\<close>

definition space :: "'p HashedSet \<Rightarrow> nat" where
  "space hs = length (entries hs) - unat (set_size hs)"

subsection \<open>The chains of a hashed set\<close>

text \<open>
  The entries met from link \<open>i\<close> on, up to the first negative link; \<open>None\<close> if the links
  leave the array or do not end within \<open>fuel\<close> entries.
\<close>

fun chain :: "nat \<Rightarrow> 'p Entry list \<Rightarrow> int \<Rightarrow> nat list option" where
  "chain 0 es i = (if i < 0 then Some [] else None)"
| "chain (Suc fuel) es i =
    (if i < 0 then Some []
     else if length es \<le> nat i then None
     else map_option (Cons (nat i)) (chain fuel es (getNextInChain (es ! nat i))))"

text \<open>
  The free list and the chain of a bucket. An entry is free if it is on the free list, and a
  member of the set if it is on the chain of some bucket.
\<close>

definition freeList :: "'p HashedSet \<Rightarrow> nat list option" where
  "freeList hs = chain (length (entries hs)) (entries hs) (freeHead hs)"

definition bucketChain :: "'p HashedSet \<Rightarrow> nat \<Rightarrow> nat list option" where
  "bucketChain hs b = chain (length (entries hs)) (entries hs) (hashTable hs ! b)"

definition isFree :: "'p HashedSet \<Rightarrow> nat \<Rightarrow> bool" where
  "isFree hs i = (case freeList hs of None \<Rightarrow> False | Some fl \<Rightarrow> i \<in> set fl)"

definition isMember :: "'p HashedSet \<Rightarrow> nat \<Rightarrow> bool" where
  "isMember hs i =
     list_ex (\<lambda>b. case bucketChain hs b of None \<Rightarrow> False | Some l \<Rightarrow> i \<in> set l)
       [0..<length (hashTable hs)]"

text \<open>
  The state a hashed set is in between calls: the free list and the chains of the buckets
  end; no entry is twice on the free list; the free entries have identifier \<open>- 1\<close>; an entry
  on the chain of a bucket has another identifier, which hashes to that bucket and occurs
  once on the chain; and every entry is free or a member.
\<close>

definition chains_ok :: "'p HashedSet \<Rightarrow> bool" where
  "chains_ok hs =
    (length (hashTable hs) = 2 * length (entries hs)
     \<and> freeList hs \<noteq> None
     \<and> list_all (\<lambda>b. bucketChain hs b \<noteq> None) [0..<length (hashTable hs)]
     \<and> distinct (the (freeList hs))
     \<and> list_all (\<lambda>i. getId (entries hs ! i) = - 1) (the (freeList hs))
     \<and> list_all (\<lambda>b. list_all (\<lambda>i. getId (entries hs ! i) \<noteq> - 1
                                  \<and> bucketOf (length (entries hs)) (getId (entries hs ! i)) = b)
                        (the (bucketChain hs b)))
          [0..<length (hashTable hs)]
     \<and> list_all (\<lambda>b. distinct (map (\<lambda>i. getId (entries hs ! i)) (the (bucketChain hs b))))
          [0..<length (hashTable hs)]
     \<and> list_all (\<lambda>i. isFree hs i \<or> isMember hs i) [0..<length (entries hs)])"

text \<open>
  With the bounds on the number of entries: there is one, and the number of buckets fits
  the 32 bits of a hash value.
\<close>

definition hs_ok :: "'p HashedSet \<Rightarrow> bool" where
  "hs_ok hs =
    (0 < length (entries hs) \<and> 2 * length (entries hs) \<le> 2 ^ 32 \<and> chains_ok hs)"

text \<open>
  The same, with the free list \<open>fl\<close> and the chains \<open>cls\<close> of the buckets named; a chain
  is described link by link, without a bound on its length.
\<close>

primrec seg :: "'p Entry list \<Rightarrow> int \<Rightarrow> nat list \<Rightarrow> int \<Rightarrow> bool" where
  "seg es i [] j = (i = j)"
| "seg es i (x # xs) j = (i = int x \<and> x < length es \<and> seg es (getNextInChain (es ! x)) xs j)"

primrec path :: "'p Entry list \<Rightarrow> int \<Rightarrow> nat list \<Rightarrow> bool" where
  "path es i [] = (i < 0)"
| "path es i (x # xs) = (i = int x \<and> x < length es \<and> path es (getNextInChain (es ! x)) xs)"

definition hs_inv :: "'p HashedSet \<Rightarrow> nat list \<Rightarrow> (nat \<Rightarrow> nat list) \<Rightarrow> bool" where
  "hs_inv hs fl cls =
    (0 < length (entries hs)
     \<and> 2 * length (entries hs) \<le> 2 ^ 32
     \<and> length (hashTable hs) = 2 * length (entries hs)
     \<and> path (entries hs) (freeHead hs) fl
     \<and> (\<forall>b < 2 * length (entries hs). path (entries hs) (hashTable hs ! b) (cls b))
     \<and> distinct fl
     \<and> (\<forall>i \<in> set fl. getId (entries hs ! i) = - 1)
     \<and> (\<forall>b < 2 * length (entries hs). \<forall>i \<in> set (cls b).
            getId (entries hs ! i) \<noteq> - 1
            \<and> bucketOf (length (entries hs)) (getId (entries hs ! i)) = b)
     \<and> (\<forall>b < 2 * length (entries hs). distinct (map (\<lambda>i. getId (entries hs ! i)) (cls b)))
     \<and> (\<forall>i < length (entries hs). i \<in> set fl \<or> (\<exists>b < 2 * length (entries hs). i \<in> set (cls b))))"

text \<open>
  The calls that change a hashed set, and a sequence of them run on a freshly constructed
  set of \<open>n\<close> entries. The source does not restrict the identifiers of the calls, and the
  default-constructed entry \<open>dflt\<close> is arbitrary.
\<close>

datatype hs_op = Insert "64 word" | FindOrInsert "64 word" | Erase "64 word"

fun apply_op :: "'p Entry \<Rightarrow> hs_op \<Rightarrow> 'p HashedSet \<Rightarrow> 'p HashedSet" where
  "apply_op dflt (Insert ident) hs = snd (insert_entry dflt ident hs)"
| "apply_op dflt (FindOrInsert ident) hs = snd (findOrInsert dflt ident hs)"
| "apply_op dflt (Erase ident) hs = snd (erase ident hs)"

definition run :: "'p Entry \<Rightarrow> nat \<Rightarrow> hs_op list \<Rightarrow> 'p HashedSet" where
  "run dflt n ops = fold (apply_op dflt) ops (HashedSet_new dflt n)"

text \<open>The identifiers that a sequence of calls asks to insert.\<close>

fun inserted_ids :: "hs_op list \<Rightarrow> 64 word list" where
  "inserted_ids [] = []"
| "inserted_ids (Insert ident # ops) = ident # inserted_ids ops"
| "inserted_ids (FindOrInsert ident # ops) = ident # inserted_ids ops"
| "inserted_ids (Erase ident # ops) = inserted_ids ops"

section \<open>The visit tracker\<close>

text \<open>
  Modelled from the spec: the entry type \<^verbatim>\<open>Visit\<close>, declared in the missing header, is
  \<open>{ id, failed }\<close>.
\<close>

record VisitData =
  failed :: bool

definition isValid :: "VisitData HashedSet \<Rightarrow> 64 word \<Rightarrow> error + bool" where
  "isValid tracker visit =
    (case doFind tracker visit of
       Inl e \<Rightarrow> Inl e
     | Inr None \<Rightarrow> Inr False
     | Inr (Some v) \<Rightarrow> Inr (\<not> failed (payload (entries tracker ! v))))"

section \<open>The chunk sub-manager\<close>

text \<open>
  Modelled from the spec: the chunk descriptor, declared in the missing header, has the
  fields that the source uses: \<^verbatim>\<open>_visitId\<close>, \<^verbatim>\<open>_usable\<close>, \<^verbatim>\<open>_interestedParties\<close>,
  \<^verbatim>\<open>_blocks\<close>, \<^verbatim>\<open>_numBlocks\<close>, \<^verbatim>\<open>_nextBlock\<close>, \<^verbatim>\<open>_size\<close> and \<^verbatim>\<open>_delta\<close>. Its identifier
  \<^verbatim>\<open>_chunkId\<close> and its link are the fields of the entry.
\<close>

record ChunkData =
  visitId :: "64 word"
  usable :: bool
  interestedParties :: Fifo
  blocks :: "64 word list"
  numBlocks :: nat
  nextBlock :: nat
  chunkSize :: nat
  delta :: nat

record 'w SubManager =
  chunks :: "ChunkData HashedSet"
  allocator :: "'w BlockAllocator"

text \<open>
  A chunk handle \<^verbatim>\<open>ChunkType(descriptor, &_allocator)\<close> is the index of its descriptor.
  Modelled from the spec: the methods of the handle are defined in \<^verbatim>\<open>Chunk.cc\<close>, which is
  not part of the sources at hand. \<^verbatim>\<open>getVisitId\<close> and \<^verbatim>\<open>isUsable\<close> read the descriptor;
  \<^verbatim>\<open>commit\<close> and \<^verbatim>\<open>rollback\<close> are opaque operations on the delta region
  (\<open>size\<close>, \<open>delta\<close>, \<open>nextBlock\<close>) of the descriptor; \<^verbatim>\<open>clear\<close> is a parameter of the
  function that calls it.
\<close>

definition chunk_getVisitId :: "'w SubManager \<Rightarrow> nat \<Rightarrow> 64 word" where
  "chunk_getVisitId sm c = visitId (payload (entries (chunks sm) ! c))"

definition chunk_isUsable :: "'w SubManager \<Rightarrow> nat \<Rightarrow> bool" where
  "chunk_isUsable sm c = usable (payload (entries (chunks sm) ! c))"

record ChunkOps =
  commitOp :: "nat \<times> nat \<times> nat \<Rightarrow> nat \<times> nat \<times> nat"
  rollbackOp :: "nat \<times> nat \<times> nat \<Rightarrow> nat \<times> nat \<times> nat"

definition onDelta :: "(nat \<times> nat \<times> nat \<Rightarrow> nat \<times> nat \<times> nat) \<Rightarrow> ChunkData \<Rightarrow> ChunkData" where
  "onDelta f d =
    (case f (chunkSize d, delta d, nextBlock d) of
       (s, dl, nb) \<Rightarrow> d\<lparr>chunkSize := s, delta := dl, nextBlock := nb\<rparr>)"

definition updPayload :: "nat \<Rightarrow> ('p \<Rightarrow> 'p) \<Rightarrow> 'p HashedSet \<Rightarrow> 'p HashedSet" where
  "updPayload i f hs = hs\<lparr>entries := (entries hs)[i := (entries hs ! i)\<lparr>payload := f (payload (entries hs ! i))\<rparr>]\<rparr>"

text \<open>
  \<^verbatim>\<open>createOrRegisterInterest\<close>: the loop over the chunk identifiers. The state is the two
  output vectors and the sub-manager; a throw leaves them as they are at that point.
\<close>

fun createOrRegisterInterest ::
  "ChunkData Entry \<Rightarrow> 64 word \<Rightarrow> 64 word list \<Rightarrow> nat list \<times> nat list \<times> 'w SubManager
     \<Rightarrow> (error + unit) \<times> nat list \<times> nat list \<times> 'w SubManager" where
  "createOrRegisterInterest dflt visit [] (toRead, toWaitFor, sm) = (Inr (), toRead, toWaitFor, sm)"
| "createOrRegisterInterest dflt visit (c # cs) (toRead, toWaitFor, sm) =
    (case findOrInsert dflt c (chunks sm) of
       (Inl e, ch) \<Rightarrow> (Inl e, toRead, toWaitFor, sm\<lparr>chunks := ch\<rparr>)
     | (Inr (p, inserted), ch) \<Rightarrow>
         if inserted then
           (case p of
              None \<Rightarrow> (Inl BadAlloc, toRead, toWaitFor, sm\<lparr>chunks := ch\<rparr>)
            | Some i \<Rightarrow>
                createOrRegisterInterest dflt visit cs
                  (toRead @ [i], toWaitFor,
                   sm\<lparr>chunks := updPayload i (\<lambda>d. d\<lparr>visitId := visit, usable := False\<rparr>) ch\<rparr>))
         else
           (case p of
              None \<Rightarrow> (Inl AssertionFailure, toRead, toWaitFor, sm\<lparr>chunks := ch\<rparr>)
            | Some i \<Rightarrow>
                (case enqueue visit (interestedParties (payload (entries ch ! i))) of
                   Inl e \<Rightarrow> (Inl e, toRead, toWaitFor, sm\<lparr>chunks := ch\<rparr>)
                 | Inr q \<Rightarrow>
                     createOrRegisterInterest dflt visit cs
                       (toRead, toWaitFor @ [i],
                        sm\<lparr>chunks := updPayload i (\<lambda>d. d\<lparr>interestedParties := q\<rparr>) ch\<rparr>))))"

text \<open>
  \<^verbatim>\<open>checkForOwnership\<close>: the loop \<^verbatim>\<open>while (i < size)\<close>. \<open>clear\<close> stands for
  \<^verbatim>\<open>Chunk::clear\<close> on the handle.
\<close>

function checkLoop ::
  "(nat \<Rightarrow> 'w SubManager \<Rightarrow> 'w SubManager) \<Rightarrow> 64 word \<Rightarrow> nat list \<Rightarrow> nat list \<Rightarrow> 'w SubManager
     \<Rightarrow> nat \<Rightarrow> nat \<Rightarrow> nat list \<times> nat list \<times> 'w SubManager" where
  "checkLoop clear visit toRead toWaitFor sm sz i =
    (if i < sz then
       (let c = toWaitFor ! i
        in if chunk_getVisitId sm c \<noteq> visit
           then checkLoop clear visit toRead toWaitFor sm sz (i + 1)
           else
             (let (toRead', sm') =
                    (if \<not> chunk_isUsable sm c then (toRead @ [c], clear c sm) else (toRead, sm));
                  sz' = sz - 1;
                  toWaitFor' = (if i < sz' then toWaitFor[i := toWaitFor ! sz'] else toWaitFor)
              in checkLoop clear visit toRead' (butlast toWaitFor') sm' sz' i))
     else (toRead, toWaitFor, sm))"
  by pat_completeness auto
termination
  by (relation "measure (\<lambda>(clear, visit, toRead, toWaitFor, sm, sz, i). sz - i)") auto

definition checkForOwnership ::
  "(nat \<Rightarrow> 'w SubManager \<Rightarrow> 'w SubManager) \<Rightarrow> 64 word \<Rightarrow> nat list \<times> nat list \<times> 'w SubManager
     \<Rightarrow> bool \<times> nat list \<times> nat list \<times> 'w SubManager" where
  "checkForOwnership clear visit st =
    (case st of (toRead, toWaitFor, sm) \<Rightarrow>
       (case checkLoop clear visit toRead toWaitFor sm (length toWaitFor) 0 of
          (toRead', toWaitFor', sm') \<Rightarrow> (toWaitFor' = [], toRead', toWaitFor', sm')))"

text \<open>
  \<^verbatim>\<open>relinquishOwnership\<close>. The events record, in the order of execution, the assignment to
  \<^verbatim>\<open>_visitId\<close>, the calls of \<^verbatim>\<open>commit\<close> and \<^verbatim>\<open>rollback\<close>, and the deallocation of a chunk, each
  with the index of the descriptor.
\<close>

datatype event =
    OwnerSet nat "64 word"
  | Committed nat
  | RolledBack nat
  | Freed nat
  | Erased nat

text \<open>
  The loop \<^verbatim>\<open>while (!i->_interestedParties.empty())\<close>: it returns the successor, if one was
  found, and the queue as the loop leaves it.
\<close>

function findSuccessor :: "VisitData HashedSet \<Rightarrow> Fifo \<Rightarrow> (error + 64 word option) \<times> Fifo" where
  "findSuccessor tracker q =
    (if Fifo_empty q then (Inr None, q)
     else
       (case dequeue q of
          Inl e \<Rightarrow> (Inl e, q)
        | Inr (nextVisitId, q') \<Rightarrow>
            (case isValid tracker nextVisitId of
               Inl e \<Rightarrow> (Inl e, q')
             | Inr valid \<Rightarrow>
                 if valid then (Inr (Some nextVisitId), q') else findSuccessor tracker q')))"
  by pat_completeness auto
termination
  by (relation "measure (\<lambda>(tracker, q). fifo_size q)")
     (auto simp add: Fifo_empty_def dequeue_def Let_def split: if_splits)

text \<open>One iteration of the loop over the descriptors, for the descriptor at \<open>idx\<close>.\<close>

definition relinquishOne ::
  "ChunkOps \<Rightarrow> traits \<Rightarrow> 64 word \<Rightarrow> bool \<Rightarrow> VisitData HashedSet \<Rightarrow> nat
     \<Rightarrow> 'w::len word SubManager \<times> bool \<times> event list
     \<Rightarrow> (error + unit) \<times> 'w word SubManager \<times> bool \<times> event list" where
  "relinquishOne ops tr visit rollback tracker idx st =
    (case st of (sm, change, evs) \<Rightarrow>
      (let d = entries (chunks sm) ! idx
       in if getId d \<noteq> - 1 \<and> visitId (payload d) = visit then
            (case findSuccessor tracker (interestedParties (payload d)) of
               (Inl e, q) \<Rightarrow>
                 (Inl e, sm\<lparr>chunks := updPayload idx (\<lambda>d. d\<lparr>interestedParties := q\<rparr>) (chunks sm)\<rparr>,
                  change, evs)
             | (Inr (Some nextVisitId), q) \<Rightarrow>
                 (let ch1 = updPayload idx (\<lambda>d. d\<lparr>interestedParties := q, visitId := nextVisitId\<rparr>)
                              (chunks sm);
                      evs1 = evs @ [OwnerSet idx nextVisitId];
                      ch2 = updPayload idx
                              (onDelta (if rollback then rollbackOp ops else commitOp ops)) ch1;
                      evs2 = evs1 @ [if rollback then RolledBack idx else Committed idx]
                  in (Inr (), sm\<lparr>chunks := ch2\<rparr>, True, evs2))
             | (Inr None, q) \<Rightarrow>
                 (let ch1 = updPayload idx (\<lambda>d. d\<lparr>interestedParties := q\<rparr>) (chunks sm)
                  in case free_blocks tr (blocks (payload d)) (numBlocks (payload d)) (allocator sm) of
                       (Inl e, al) \<Rightarrow> (Inl e, sm\<lparr>chunks := ch1, allocator := al\<rparr>, change, evs)
                     | (Inr u, al) \<Rightarrow>
                         (case erase (getId d) ch1 of
                            (Inl e, ch2) \<Rightarrow>
                              (Inl e, sm\<lparr>chunks := ch2, allocator := al\<rparr>, change, evs @ [Freed idx])
                          | (Inr b, ch2) \<Rightarrow>
                              (Inr (), sm\<lparr>chunks := ch2, allocator := al\<rparr>, change,
                               evs @ [Freed idx, Erased idx]))))
          else (Inr (), sm, change, evs)))"

text \<open>The loop over all descriptors, here over their indexes; a throw ends it.\<close>

fun relinquishScan ::
  "ChunkOps \<Rightarrow> traits \<Rightarrow> 64 word \<Rightarrow> bool \<Rightarrow> VisitData HashedSet \<Rightarrow> nat list
     \<Rightarrow> 'w::len word SubManager \<times> bool \<times> event list
     \<Rightarrow> (error + unit) \<times> 'w word SubManager \<times> bool \<times> event list" where
  "relinquishScan ops tr visit rollback tracker [] st = (Inr (), st)"
| "relinquishScan ops tr visit rollback tracker (idx # rest) st =
    (case relinquishOne ops tr visit rollback tracker idx st of
       (Inl e, st') \<Rightarrow> (Inl e, st')
     | (Inr u, st') \<Rightarrow> relinquishScan ops tr visit rollback tracker rest st')"

definition relinquishOwnership ::
  "ChunkOps \<Rightarrow> traits \<Rightarrow> 64 word \<Rightarrow> bool \<Rightarrow> VisitData HashedSet \<Rightarrow> 'w::len word SubManager
     \<Rightarrow> (error + bool) \<times> 'w word SubManager \<times> event list" where
  "relinquishOwnership ops tr visit rollback tracker sm =
    (case relinquishScan ops tr visit rollback tracker [0..<length (entries (chunks sm))]
            (sm, False, []) of
       (Inl e, sm', change, evs) \<Rightarrow> (Inl e, sm', evs)
     | (Inr u, sm', change, evs) \<Rightarrow> (Inr change, sm', evs))"

section \<open>The chunk manager\<close>

text \<open>
  \<^verbatim>\<open>ChunkManagerSingleImpl\<close>: the visit tracker \<^verbatim>\<open>_visits\<close>, the sub-manager \<^verbatim>\<open>_data\<close>, and
  the number of times \<^verbatim>\<open>_ownerCondition.notifyAll()\<close> was called. Every method holds the
  mutex from its first statement to its return.
\<close>

record 'w ChunkManager =
  visits :: "VisitData HashedSet"
  data :: "'w SubManager"
  notifications :: nat

definition registerVisit ::
  "VisitData Entry \<Rightarrow> 64 word \<Rightarrow> 'w ChunkManager \<Rightarrow> (error + unit) \<times> 'w ChunkManager" where
  "registerVisit dflt visit cm =
    (case doFind (visits cm) visit of
       Inl e \<Rightarrow> (Inl e, cm)
     | Inr (Some v) \<Rightarrow> (Inl InvalidParameter, cm)
     | Inr None \<Rightarrow>
         if space (visits cm) = 0 then (Inl LengthError, cm)
         else
           (case insert_entry dflt visit (visits cm) of
              (Inl e, vs) \<Rightarrow> (Inl e, cm\<lparr>visits := vs\<rparr>)
            | (Inr None, vs) \<Rightarrow> (Inl AssertionFailure, cm\<lparr>visits := vs\<rparr>)
            | (Inr (Some v), vs) \<Rightarrow> (Inr (), cm\<lparr>visits := vs\<rparr>)))"

definition failVisit :: "64 word \<Rightarrow> 'w ChunkManager \<Rightarrow> (error + unit) \<times> 'w ChunkManager" where
  "failVisit visit cm =
    (case doFind (visits cm) visit of
       Inl e \<Rightarrow> (Inl e, cm)
     | Inr None \<Rightarrow> (Inr (), cm)
     | Inr (Some v) \<Rightarrow> (Inr (), cm\<lparr>visits := updPayload v (\<lambda>d. d\<lparr>failed := True\<rparr>) (visits cm)\<rparr>))"

text \<open>
  \<^verbatim>\<open>startVisit\<close>. The output vectors are cleared on entry; the result carries them as the
  call leaves them.
\<close>

definition startVisit ::
  "ChunkData Entry \<Rightarrow> 64 word \<Rightarrow> 64 word list \<Rightarrow> 'w ChunkManager
     \<Rightarrow> (error + unit) \<times> nat list \<times> nat list \<times> 'w ChunkManager" where
  "startVisit dflt visit chunkIds cm =
    (if space (chunks (data cm)) < length chunkIds then (Inl LengthError, [], [], cm)
     else
       (case isValid (visits cm) visit of
          Inl e \<Rightarrow> (Inl e, [], [], cm)
        | Inr valid \<Rightarrow>
            if \<not> valid then (Inl InvalidParameter, [], [], cm)
            else
              (case createOrRegisterInterest dflt visit chunkIds ([], [], data cm) of
                 (r, toRead, toWaitFor, sm) \<Rightarrow> (r, toRead, toWaitFor, cm\<lparr>data := sm\<rparr>))))"

text \<open>\<^verbatim>\<open>endVisit\<close>. The result carries the events of \<^verbatim>\<open>relinquishOwnership\<close>.\<close>

definition endVisit ::
  "ChunkOps \<Rightarrow> traits \<Rightarrow> 64 word \<Rightarrow> bool \<Rightarrow> 'w::len word ChunkManager
     \<Rightarrow> (error + bool) \<times> 'w word ChunkManager \<times> event list" where
  "endVisit ops tr visit rollback cm =
    (case isValid (visits cm) visit of
       Inl e \<Rightarrow> (Inl e, cm, [])
     | Inr valid \<Rightarrow>
         (let roll = (rollback \<or> \<not> valid)
          in case erase visit (visits cm) of
               (Inl e, vs) \<Rightarrow> (Inl e, cm\<lparr>visits := vs\<rparr>, [])
             | (Inr erased, vs) \<Rightarrow>
                 if \<not> erased then (Inr False, cm\<lparr>visits := vs\<rparr>, [])
                 else
                   (case relinquishOwnership ops tr visit roll vs (data cm) of
                      (Inl e, sm, evs) \<Rightarrow> (Inl e, cm\<lparr>visits := vs, data := sm\<rparr>, evs)
                    | (Inr change, sm, evs) \<Rightarrow>
                        (Inr (\<not> roll),
                         cm\<lparr>visits := vs, data := sm,
                            notifications := notifications cm + (if change then 1 else 0)\<rparr>,
                         evs))))"


section \<open>The order of the events of a hand-off\<close>

text \<open>
  The order as the specification words it: the commit or rollback of a descriptor comes
  before the assignment to its \<^verbatim>\<open>_visitId\<close>. \<open>seen\<close> holds the descriptors committed or
  rolled back so far.
\<close>

fun settled_first :: "nat list \<Rightarrow> event list \<Rightarrow> bool" where
  "settled_first seen [] = True"
| "settled_first seen (Committed i # es) = settled_first (i # seen) es"
| "settled_first seen (RolledBack i # es) = settled_first (i # seen) es"
| "settled_first seen (OwnerSet i v # es) = (i \<in> set seen \<and> settled_first seen es)"
| "settled_first seen (Freed i # es) = settled_first seen es"
| "settled_first seen (Erased i # es) = settled_first seen es"

text \<open>
  The order of the source: every assignment to \<^verbatim>\<open>_visitId\<close> is followed at once by the
  commit, or with \<open>rb\<close> the rollback, of the same descriptor, and there is no commit or
  rollback elsewhere.
\<close>

fun owner_then_settle :: "bool \<Rightarrow> event list \<Rightarrow> bool" where
  "owner_then_settle rb [] = True"
| "owner_then_settle rb (OwnerSet i v # e # es) =
     (e = (if rb then RolledBack i else Committed i) \<and> owner_then_settle rb es)"
| "owner_then_settle rb (Freed i # es) = owner_then_settle rb es"
| "owner_then_settle rb (Erased i # es) = owner_then_settle rb es"
| "owner_then_settle rb (e # es) = False"

section \<open>What the frame of a hand-off speaks of\<close>

text \<open>The descriptor at \<open>j\<close> is in use and owned by \<open>visit\<close>.\<close>

definition owned :: "64 word \<Rightarrow> 'w SubManager \<Rightarrow> nat \<Rightarrow> bool" where
  "owned visit sm j =
    (getId (entries (chunks sm) ! j) \<noteq> - 1 \<and> visitId (payload (entries (chunks sm) ! j)) = visit)"

text \<open>The indexes of the allocator bits that \<^verbatim>\<open>free\<close> resets for a descriptor.\<close>

definition blockIndexesOf :: "traits \<Rightarrow> 64 word \<Rightarrow> ChunkData \<Rightarrow> nat list" where
  "blockIndexesOf tr ofs d =
    (if \<not> numBlocks d \<le> MAX_BLOCKS_PER_CHUNK tr \<or> length (blocks d) < numBlocks d then []
     else case blockIndexes tr ofs (take (numBlocks d) (blocks d)) of Inl e \<Rightarrow> [] | Inr is \<Rightarrow> is)"

text \<open>
  The indexes of the allocator bits that back the blocks of the descriptor at \<open>j\<close>; a free
  descriptor holds no blocks.
\<close>

definition backing :: "traits \<Rightarrow> 'w SubManager \<Rightarrow> nat \<Rightarrow> nat list" where
  "backing tr sm j =
    (if getId (entries (chunks sm) ! j) = - 1 then []
     else blockIndexesOf tr (offset (allocator sm)) (payload (entries (chunks sm) ! j)))"

text \<open>No block is held by two descriptors.\<close>

definition blocks_apart :: "traits \<Rightarrow> 'w SubManager \<Rightarrow> bool" where
  "blocks_apart tr sm =
    list_all (\<lambda>j. list_all (\<lambda>k. j = k \<or> list_all (\<lambda>p. p \<notin> set (backing tr sm k)) (backing tr sm j))
                      [0..<length (entries (chunks sm))])
      [0..<length (entries (chunks sm))]"

text \<open>
  A descriptor whose blocks \<^verbatim>\<open>free\<close> accepts: at most \<^verbatim>\<open>MAX_BLOCKS_PER_CHUNK\<close> of them, each
  the offset of a block of the pool.
\<close>

definition blocks_ok :: "traits \<Rightarrow> 64 word \<Rightarrow> ChunkData \<Rightarrow> bool" where
  "blocks_ok tr ofs d =
    (0 < NUM_BLOCKS tr \<and> numBlocks d \<le> MAX_BLOCKS_PER_CHUNK tr \<and> numBlocks d \<le> length (blocks d)
     \<and> (case blockIndexes tr ofs (take (numBlocks d) (blocks d)) of Inl e \<Rightarrow> False | Inr is \<Rightarrow> True))"

text \<open>The visits that the tracker holds and that have not failed.\<close>

definition valid :: "VisitData HashedSet \<Rightarrow> 64 word \<Rightarrow> bool" where
  "valid tracker v = (isValid tracker v = Inr True)"

section \<open>What the hand-off of a chunk speaks of\<close>

text \<open>The queue of the interested parties of the descriptor at \<open>j\<close>.\<close>

definition queue :: "'w SubManager \<Rightarrow> nat \<Rightarrow> Fifo" where
  "queue sm j = interestedParties (payload (entries (chunks sm) ! j))"

text \<open>
  The queued identifiers from the first one on that is the identifier of a valid visit;
  those before it are the ones that the search for a successor drops.
\<close>

definition waiting :: "VisitData HashedSet \<Rightarrow> 'w SubManager \<Rightarrow> nat \<Rightarrow> 64 word list" where
  "waiting tracker sm j = dropWhile (\<lambda>v. \<not> valid tracker v) (fifo_list (queue sm j))"

text \<open>
  The descriptor at \<open>j\<close> after the hand-off from \<open>sm\<close> to \<open>sm'\<close>: with nobody waiting it is
  free; otherwise it holds the same chunk, its owner is the first of those waiting, and
  its queue holds the others, in their order.
\<close>

definition handed_over :: "VisitData HashedSet \<Rightarrow> 'w SubManager \<Rightarrow> 'w SubManager \<Rightarrow> nat \<Rightarrow> bool" where
  "handed_over tracker sm sm' j =
    (case waiting tracker sm j of
       [] \<Rightarrow> getId (entries (chunks sm') ! j) = - 1
     | nv # rest \<Rightarrow>
         getId (entries (chunks sm') ! j) = getId (entries (chunks sm) ! j)
         \<and> chunk_getVisitId sm' j = nv
         \<and> fifo_list (queue sm' j) = rest
         \<and> fifo_ok (queue sm' j))"

text \<open>
  The descriptors of \<open>visit\<close> are ready to be relinquished: their queues are well-formed
  and their blocks are blocks of the pool.
\<close>

definition relinquishable :: "traits \<Rightarrow> 64 word \<Rightarrow> 'w SubManager \<Rightarrow> bool" where
  "relinquishable tr visit sm =
    list_all (\<lambda>j. \<not> owned visit sm j
                   \<or> (fifo_ok (queue sm j)
                      \<and> blocks_ok tr (offset (allocator sm)) (payload (entries (chunks sm) ! j))))
      [0..<length (entries (chunks sm))]"

section \<open>Example states\<close>

text \<open>
  Default-constructed entries. Modelled from the spec: the constructors of the entry types
  are in the missing header; a free entry has the identifier \<open>- 1\<close>, and a descriptor
  starts with an empty queue of \<open>cap\<close> places and no blocks.
\<close>

definition dfltVisit :: "VisitData Entry" where
  "dfltVisit = \<lparr>getId = - 1, getNextInChain = - 1, payload = \<lparr>failed = False\<rparr>\<rparr>"

definition dfltChunk :: "nat \<Rightarrow> ChunkData Entry" where
  "dfltChunk cap = \<lparr>getId = - 1, getNextInChain = - 1,
     payload = \<lparr>visitId = - 1, usable = False,
                interestedParties =
                  \<lparr>buffer = replicate cap 0, fifo_size = 0, fifo_back = 0, fifo_front = 0\<rparr>,
                blocks = [], numBlocks = 0, nextBlock = 0, chunkSize = 0, delta = 0\<rparr>\<rparr>"

definition tr0 :: traits where
  "tr0 = \<lparr>MAX_BLOCKS_PER_CHUNK = 2, NUM_BLOCKS = 8, BLOCK_SIZE = 16\<rparr>"

definition ops0 :: ChunkOps where
  "ops0 = \<lparr>commitOp = (\<lambda>(s, d, n). (s, s, n)), rollbackOp = (\<lambda>(s, d, n). (d, d, n))\<rparr>"

text \<open>
  A manager for \<open>vcap\<close> visits and four chunks, with queues of \<open>qcap\<close> places and a pool of
  eight blocks.
\<close>

definition cmInit :: "nat \<Rightarrow> nat \<Rightarrow> 8 word ChunkManager" where
  "cmInit vcap qcap =
    \<lparr>visits = HashedSet_new dfltVisit vcap,
     data = \<lparr>chunks = HashedSet_new (dfltChunk qcap) 4,
             allocator = \<lparr>allocator_bits = [0], offset = 0\<rparr>\<rparr>,
     notifications = 0\<rparr>"

definition registered :: "64 word \<Rightarrow> 8 word ChunkManager \<Rightarrow> 8 word ChunkManager" where
  "registered v cm = snd (registerVisit dfltVisit v cm)"

definition started :: "nat \<Rightarrow> 64 word \<Rightarrow> 64 word list \<Rightarrow> 8 word ChunkManager \<Rightarrow> 8 word ChunkManager" where
  "started qcap v cs cm = snd (snd (snd (startVisit (dfltChunk qcap) v cs cm)))"

definition ended :: "64 word \<Rightarrow> 8 word ChunkManager \<Rightarrow> 8 word ChunkManager" where
  "ended v cm = fst (snd (endVisit ops0 tr0 v False cm))"

text \<open>
  Visit 1 owns chunk 200, at descriptor 0; the visits 2 and 3, and then also visit 4,
  have registered their interest in it, in this order.
\<close>

definition cmQueue3 :: "8 word ChunkManager" where
  "cmQueue3 =
    started 4 3 [200] (started 4 2 [200] (started 4 1 [200]
      (registered 4 (registered 3 (registered 2 (registered 1 (cmInit 4 4)))))))"

definition cmQueue :: "8 word ChunkManager" where
  "cmQueue = started 4 4 [200] cmQueue3"

text \<open>
  A manager for two visits with queues of two places. Visit 1 owns chunk 200; the visits
  2 and 3 registered their interest in it and ended, which leaves their identifiers in
  its queue; visit 4 is registered.
\<close>

definition cmStale :: "8 word ChunkManager" where
  "cmStale =
    registered 4 (ended 3 (started 2 3 [200] (registered 3 (ended 2 (started 2 2 [200]
      (registered 2 (started 2 1 [200] (registered 1 (cmInit 2 2)))))))))"

text \<open>
  The chunks 1 and 2 hash to the same bucket. Visit 1 owns chunk 1, at descriptor 0, and
  visit 2 owns chunk 2, at descriptor 1, which follows descriptor 0 in the chain.
\<close>

definition cmChain :: "8 word ChunkManager" where
  "cmChain = started 4 2 [2] (started 4 1 [1] (registered 2 (registered 1 (cmInit 4 4))))"

text \<open>
  Modelled from the spec: the chunk handle, of the missing \<^verbatim>\<open>Chunk.cc\<close>, allocates the blocks
  of a chunk and records their offsets in the descriptor. The state of \<open>cmChain\<close> after
  chunk 1 got block 0 and chunk 2 got block 1 of the pool.
\<close>

definition withBlocks :: "nat \<Rightarrow> 64 word list \<Rightarrow> 'w SubManager \<Rightarrow> 'w SubManager" where
  "withBlocks j bs sm =
    sm\<lparr>chunks := updPayload j (\<lambda>d. d\<lparr>blocks := bs, numBlocks := length bs\<rparr>) (chunks sm)\<rparr>"

definition smBlocks :: "8 word SubManager" where
  "smBlocks = (withBlocks 1 [16] (withBlocks 0 [0] (data cmChain)))
                \<lparr>allocator := \<lparr>allocator_bits = [3], offset = 0\<rparr>\<rparr>"

text \<open>
  Visit 2 waits for chunk 200, which visit 1 handed over to it at its end, and for chunk
  100, which visit 3 owns. Neither chunk is usable.
\<close>

definition cmWait :: "8 word ChunkManager" where
  "cmWait =
    ended 1 (started 4 2 [200, 100] (started 4 3 [100] (started 4 1 [200]
      (registered 3 (registered 2 (registered 1 (cmInit 4 4)))))))"

text \<open>
  Modelled from the spec: \<^verbatim>\<open>Chunk::clear\<close>, of the missing \<^verbatim>\<open>Chunk.cc\<close>, drops all blocks of
  the chunk back to the allocator.
\<close>

definition chunk_clear :: "traits \<Rightarrow> nat \<Rightarrow> 'w::len word SubManager \<Rightarrow> 'w word SubManager" where
  "chunk_clear tr c sm =
    (let d = payload (entries (chunks sm) ! c)
     in sm\<lparr>chunks := updPayload c (\<lambda>d. d\<lparr>numBlocks := 0, nextBlock := 0, chunkSize := 0, delta := 0\<rparr>)
                        (chunks sm),
           allocator := snd (free_blocks tr (blocks d) (numBlocks d) (allocator sm))\<rparr>)"

text \<open>
  A default-constructed entry with the identifier 0, for a set whose entry type does not
  reset the identifier.
\<close>

definition dfltZero :: "VisitData Entry" where
  "dfltZero = \<lparr>getId = 0, getNextInChain = - 1, payload = \<lparr>failed = False\<rparr>\<rparr>"

section \<open>Proofs: the hash function\<close>

lemma unat_NOT_64: "unat (NOT (w::64 word)) = 2 ^ 64 - 1 - unat w"
proof -
  have "NOT w = (-1) - w" by (simp add: not_eq_complement)
  moreover have "unat ((-1::64 word) - w) = unat (-1::64 word) - unat w"
    by (rule unat_sub) simp
  moreover have "unat (-1::64 word) = 2 ^ 64 - 1"
    by (simp add: unsigned_minus_1_eq_mask mask_eq_exp_minus_1)
  ultimately show ?thesis by (simp only:)
qed

lemma unat_push_bit_64: "unat (push_bit n (w::64 word)) = (unat w * 2 ^ n) mod 2 ^ 64"
  by (subst unsigned_push_bit_eq) (simp add: take_bit_eq_mod push_bit_eq_mult)

lemma unat_drop_bit_64: "unat (drop_bit n (w::64 word)) = unat w div 2 ^ n"
  by (subst unat_drop_bit_eq) (simp add: drop_bit_eq_div)

lemma unat_ucast_64_32: "unat (ucast (w::64 word) :: 32 word) = unat w mod 2 ^ 32"
  by (simp add: unsigned_ucast_eq take_bit_eq_mod)

lemma unat_21: "unat (21::64 word) = 21"
  by simp

lemma len64: "LENGTH(64) = 64"
  by simp

lemma xor_mod_32: "((a::nat) XOR b) mod 2 ^ 32 = (a mod 2 ^ 32) XOR (b mod 2 ^ 32)"
  by (simp only: take_bit_xor flip: take_bit_eq_mod)

text \<open>
  Claim C9. For every unsigned 64-bit key the implemented hash is the specified Wang mix:
  read as natural numbers, the 32-bit result of \<open>hash\<close> is the low 32 bits of the six
  steps of the specification, each taken modulo \<open>2 ^ 64\<close>.
\<close>

theorem hash_is_wang_mix: "unat (hash k) = wang_mix_spec (unat k)"
  unfolding hash_def wang_mix_spec_def Let_def
  by (simp only: unat_ucast_64_32 unsigned_xor_eq unat_drop_bit_64 unat_word_ariths
      unat_push_bit_64 unat_NOT_64 unat_21 len64 xor_mod_32)


section \<open>Proofs: the bit set\<close>

lemma and_WORD_MASK [simp]: "w AND WORD_MASK = w"
  by (simp add: WORD_MASK_def)

declare countZeroes.simps [simp del] setWord.simps [simp del] setLoop.simps [simp del]

lemma and_push_bit_1_eq_0: "((w::'a::len word) AND push_bit j 1 = 0) = (\<not> bit w j)"
  by (simp add: and_exp_eq_0_iff_not_bit)

lemma zeroPositions_step:
  "j < LENGTH('a) \<Longrightarrow> zeroPositions (w::'a::len word) j =
     (if bit w j then zeroPositions w (Suc j) else j # zeroPositions w (Suc j))"
  by (simp add: zeroPositions_def upt_conv_Cons)

lemma zeroPositions_end [simp]: "LENGTH('a) \<le> j \<Longrightarrow> zeroPositions (w::'a::len word) j = []"
  by (simp add: zeroPositions_def)

lemma zeroPositions_or_below:
  "zeroPositions ((w::'a::len word) OR 2 ^ j) (Suc j) = zeroPositions w (Suc j)"
  unfolding zeroPositions_def
  by (rule filter_cong) (auto simp add: bit_or_iff bit_exp_iff)

lemma writeAll_Nil [simp]: "writeAll p [] xs = xs"
  by (simp add: writeAll_def)

lemma writeAll_Cons: "writeAll p (v # vs) xs = writeAll (Suc p) vs (xs[p := v])"
proof -
  have "[p..<p + length (v # vs)] = p # [Suc p..<Suc p + length vs]"
    by (simp add: upt_conv_Cons del: upt_Suc)
  then show ?thesis by (simp add: writeAll_def del: upt_Suc)
qed

lemma orBits_Nil [simp]: "orBits [] w = w"
  by (simp add: orBits_def)

lemma orBits_Cons: "orBits (b # bs) w = orBits bs (w OR 2 ^ b)"
  by (simp add: orBits_def)

lemma setWord_step:
  fixes w :: "'a::len word"
  assumes "j < LENGTH('a)"
  shows "setWord indexes w k i (2 ^ j) j z =
    (if bit w j then setWord indexes w k i (2 ^ Suc j) (Suc j) z
     else if z + 1 = k then (indexes[nat z := int (i * LENGTH('a) + j)], w OR 2 ^ j, z + 1)
     else setWord (indexes[nat z := int (i * LENGTH('a) + j)]) (w OR 2 ^ j) k i
            (2 ^ Suc j) (Suc j) (z + 1))"
  using assms
  by (subst setWord.simps) (simp add: and_exp_eq_0_iff_not_bit push_bit_eq_mult Let_def mult.commute)

lemma setWord_eq:
  fixes w :: "'a::len word"
  assumes "j \<le> LENGTH('a)" "0 \<le> z" "z < k"
  shows "setWord indexes w k i (2 ^ j) j z =
    (let bs = take (nat (k - z)) (zeroPositions w j)
     in (writeAll (nat z) (map (\<lambda>b. int (i * LENGTH('a) + b)) bs) indexes,
         orBits bs w, z + int (length bs)))"
  using assms
proof (induction "LENGTH('a) - j" arbitrary: j z w indexes)
  case 0
  then show ?case by (simp add: setWord.simps[of _ _ _ _ _ j])
next
  case (Suc n)
  then have jlt: "j < LENGTH('a)" by simp
  have n: "n = LENGTH('a) - Suc j" using Suc.hyps(2) by simp
  show ?case
  proof (cases "bit w j")
    case True
    from Suc.hyps(1)[OF n _ Suc.prems(2,3), where w=w and indexes=indexes] jlt True
    show ?thesis
      by (simp add: setWord_step[OF jlt] zeroPositions_step[of j])
  next
    case False
    show ?thesis
    proof (cases "z + 1 = k")
      case True
      then have "nat (k - z) = 1" by simp
      with jlt False True show ?thesis
        by (simp add: setWord_step[OF jlt] zeroPositions_step[of j] Let_def writeAll_Cons orBits_Cons)
    next
      case neq: False
      have z1: "0 \<le> z + 1" "z + 1 < k" using Suc.prems neq by auto
      have nk: "nat (k - z) = Suc (nat (k - (z + 1)))" using Suc.prems neq by auto
      have nz: "nat (z + 1) = Suc (nat z)" using Suc.prems by auto
      from Suc.hyps(1)[OF n _ z1, where w="w OR 2 ^ j" and indexes="indexes[nat z := int (i * LENGTH('a) + j)]"] jlt
      have IH: "setWord (indexes[nat z := int (i * LENGTH('a) + j)]) (w OR 2 ^ j) k i (2 ^ Suc j) (Suc j) (z + 1) =
        (let bs = take (nat (k - (z + 1))) (zeroPositions w (Suc j))
         in (writeAll (nat (z + 1)) (map (\<lambda>b. int (i * LENGTH('a) + b)) bs) (indexes[nat z := int (i * LENGTH('a) + j)]),
         orBits bs (w OR 2 ^ j), z + 1 + int (length bs)))"
        by (simp add: zeroPositions_or_below)
      show ?thesis
        using jlt False neq IH
        by (simp add: setWord_step[OF jlt] Let_def zeroPositions_step[of j] nk nz writeAll_Cons orBits_Cons)
    qed
  qed
qed


lemma writeAll_append:
  "writeAll p (vs @ us) xs = writeAll (p + length vs) us (writeAll p vs xs)"
  by (induction vs arbitrary: p xs) (simp_all add: writeAll_Cons)

lemma length_writeAll [simp]: "length (writeAll p vs xs) = length xs"
  by (induction vs arbitrary: p xs) (simp_all add: writeAll_Cons)

lemma writeAll_eq:
  "p + length vs \<le> length xs \<Longrightarrow> writeAll p vs xs = take p xs @ vs @ drop (p + length vs) xs"
proof (induction vs arbitrary: p xs)
  case Nil
  then show ?case by simp
next
  case (Cons v vs)
  then have p: "p < length xs" by simp
  have tk: "take (Suc p) (xs[p := v]) = take p xs @ [v]"
    using p by (simp add: take_Suc_conv_app_nth)
  from Cons.IH[of "Suc p" "xs[p := v]"] Cons.prems
  show ?case
    by (simp add: writeAll_Cons tk)
qed

lemma bit_orBits:
  "bit (orBits bs (w::'a::len word)) b = (bit w b \<or> (b \<in> set bs \<and> b < LENGTH('a)))"
  by (induction bs arbitrary: w) (auto simp add: orBits_Cons bit_or_iff bit_exp_iff)

lemma mark_Nil [simp]: "mark [] words = words"
  by (simp add: mark_def)

lemma mark_append: "mark (ps @ qs) words = mark qs (mark ps words)"
  by (simp add: mark_def)

lemma length_mark [simp]: "length (mark ps words) = length words"
  unfolding mark_def by (induction ps arbitrary: words) simp_all

lemma mark_one_word:
  fixes words :: "'a::len word list"
  assumes "i < length words" "\<forall>b\<in>set bs. b < LENGTH('a)"
  shows "mark (map (\<lambda>b. i * LENGTH('a) + b) bs) words = words[i := orBits bs (words ! i)]"
  using assms
proof (induction bs arbitrary: words)
  case Nil
  then show ?case by simp
next
  case (Cons b bs)
  then have b: "b < LENGTH('a)" by simp
  have "mark (map (\<lambda>b. i * LENGTH('a) + b) (b # bs)) words
      = mark (map (\<lambda>b. i * LENGTH('a) + b) bs) (words[i := words ! i OR 2 ^ b])"
    using b by (simp add: mark_def)
  also have "\<dots> = (words[i := words ! i OR 2 ^ b])[i := orBits bs ((words[i := words ! i OR 2 ^ b]) ! i)]"
    using Cons.prems by (intro Cons.IH) simp_all
  also have "\<dots> = words[i := orBits (b # bs) (words ! i)]"
    using Cons.prems(1) by (simp add: orBits_Cons)
  finally show ?case .
qed

lemma set_zeroPositions: "set (zeroPositions (w::'a::len word) j) = {b. j \<le> b \<and> b < LENGTH('a) \<and> \<not> bit w b}"
  by (auto simp add: zeroPositions_def)

lemma zeroFrom_step:
  "i < length words \<Longrightarrow>
   zeroFrom words i = map (\<lambda>b. i * LENGTH('a) + b) (zeroPositions (words ! i) 0) @ zeroFrom words (Suc i)"
  for words :: "'a::len word list"
  by (simp add: zeroFrom_def upt_conv_Cons)

lemma zeroFrom_end [simp]: "length words \<le> i \<Longrightarrow> zeroFrom words i = []"
  by (simp add: zeroFrom_def)

lemma zeroFrom_update:
  "i < j \<Longrightarrow> zeroFrom (words[i := w]) j = zeroFrom words j"
  unfolding zeroFrom_def by (auto intro!: arg_cong[where f=concat] map_cong)

lemma zeroPositions_full: "zeroPositions (- 1 :: 'a::len word) j = []"
  by (simp add: zeroPositions_def)

lemma setLoop_eq:
  fixes words :: "'a::len word list"
  assumes "0 \<le> z" "nat (k - z) \<le> length (zeroFrom words i)"
  shows "setLoop indexes words k i z =
    Inr (True, writeAll (nat z) (map int (take (nat (k - z)) (zeroFrom words i))) indexes,
         mark (take (nat (k - z)) (zeroFrom words i)) words)"
  using assms
proof (induction "length words - i" arbitrary: i z indexes words)
  case 0
  then show ?case by (simp add: setLoop.simps[of _ _ _ i])
next
  case (Suc n)
  then have ilt: "i < length words" by simp
  show ?case
  proof (cases "z < k")
    case False
    then show ?thesis by (simp add: setLoop.simps[of _ _ _ i])
  next
    case zk: True
    let ?w = "words ! i"
    let ?zw = "zeroPositions ?w 0"
    have n: "n = length words - Suc i" using Suc.hyps(2) by simp
    show ?thesis
    proof (cases "?w = - 1")
      case True
      then have zf: "zeroFrom words i = zeroFrom words (Suc i)"
        using ilt by (simp add: zeroFrom_step zeroPositions_full)
      from Suc.hyps(1)[OF n Suc.prems(1), where indexes=indexes] Suc.prems(2) zf
      have "setLoop indexes words k (Suc i) z =
        Inr (True, writeAll (nat z) (map int (take (nat (k - z)) (zeroFrom words i))) indexes,
         mark (take (nat (k - z)) (zeroFrom words i)) words)" by simp
      with True zk ilt show ?thesis
        by (subst setLoop.simps) (simp add: WORD_MASK_def)
    next
      case False
      define bs where "bs = take (nat (k - z)) ?zw"
      define indexes1 where "indexes1 = writeAll (nat z) (map (\<lambda>b. int (i * LENGTH('a) + b)) bs) indexes"
      define z1 where "z1 = z + int (length bs)"
      define words1 where "words1 = words[i := orBits bs ?w]"
      have sw: "setWord indexes ?w k i 1 0 z = (indexes1, orBits bs ?w, z1)"
        using setWord_eq[of 0 z k indexes ?w i] Suc.prems(1) zk
        by (simp add: Let_def bs_def indexes1_def z1_def)
      have step: "setLoop indexes words k i z = setLoop indexes1 words1 k (Suc i) z1"
        using False zk ilt sw
        by (subst setLoop.simps) (simp add: WORD_MASK_def words1_def)
      have z1nn: "0 \<le> z1" using Suc.prems(1) by (simp add: z1_def)
      have len1: "length words1 = length words" by (simp add: words1_def)
      have zf1: "zeroFrom words1 (Suc i) = zeroFrom words (Suc i)"
        by (simp add: words1_def zeroFrom_update)
      have split: "zeroFrom words i = map (\<lambda>b. i * LENGTH('a) + b) ?zw @ zeroFrom words (Suc i)"
        using ilt by (rule zeroFrom_step)
      have lbs: "length bs = min (nat (k - z)) (length ?zw)" by (simp add: bs_def min.commute)
      have rest: "nat (k - z1) \<le> length (zeroFrom words1 (Suc i))"
        using Suc.prems(2) zk by (simp add: zf1 split z1_def lbs)
      have kz1: "nat (k - z1) = nat (k - z) - length bs" using zk by (simp add: z1_def)
      have tk: "take (nat (k - z)) (zeroFrom words i) =
                map (\<lambda>b. i * LENGTH('a) + b) bs @ take (nat (k - z1)) (zeroFrom words (Suc i))"
      proof -
        have "nat (k - z) - min (length ?zw) (nat (k - z)) = nat (k - z) - length ?zw"
          by arith
        then show ?thesis
          by (simp add: split bs_def take_map kz1 lbs min.commute)
      qed
      have n1: "n = length words1 - Suc i" using n len1 by simp
      have nz1: "nat z1 = nat z + length bs" using Suc.prems(1) by (simp add: z1_def)
      have bsL: "\<forall>b\<in>set bs. b < LENGTH('a)"
        using set_zeroPositions[of ?w 0] by (auto simp add: bs_def dest: in_set_takeD)
      have mk: "mark (map (\<lambda>b. i * LENGTH('a) + b) bs) words = words1"
        unfolding words1_def using ilt bsL by (rule mark_one_word)
      have "setLoop indexes1 words1 k (Suc i) z1 =
        Inr (True, writeAll (nat z1) (map int (take (nat (k - z1)) (zeroFrom words1 (Suc i)))) indexes1,
         mark (take (nat (k - z1)) (zeroFrom words1 (Suc i))) words1)"
        using n1 z1nn rest by (rule Suc.hyps(1))
      also have "\<dots> = Inr (True, writeAll (nat z) (map int (take (nat (k - z)) (zeroFrom words i))) indexes,
         mark (take (nat (k - z)) (zeroFrom words i)) words)"
        by (simp add: tk zf1 writeAll_append mark_append mk nz1 indexes1_def comp_def)
      finally show ?thesis using step by simp
    qed
  qed
qed


lemma test_bit: "test (words::'a::len word list) p = bit (words ! (p div LENGTH('a))) (p mod LENGTH('a))"
  by (simp add: test_def wordForBit_def maskForBit_def and_exp_eq_0_iff_not_bit)

lemma block_upt: "[n * L..<n * L + L] = map (\<lambda>b. n * L + b) [0..<L]"
  using map_add_upt[of "n * L" L] by (simp add: add.commute)

lemma filter_blocks:
  "concat (map (\<lambda>j. map (\<lambda>b. j * L + b) (filter (\<lambda>b. P (j * L + b)) [0..<L])) [0..<n])
     = filter P [0..<n * L]"
proof (induction n)
  case 0
  then show ?case by simp
next
  case (Suc n)
  have "[0..<n * L + L] = [0..<n * L] @ [n * L..<n * L + L]"
    by (rule upt_add_eq_append) simp
  moreover have "Suc n * L = n * L + L" by simp
  ultimately have "[0..<Suc n * L] = [0..<n * L] @ [n * L..<n * L + L]"
    by (simp only:)
  then show ?case
    using Suc by (simp add: block_upt filter_map comp_def)
qed

lemma zeroFrom_0: "zeroFrom words 0 = filter (\<lambda>p. \<not> test words p) [0..<length words * LENGTH('a)]"
  for words :: "'a::len word list"
proof -
  have "zeroFrom words 0 =
    concat (map (\<lambda>j. map (\<lambda>b. j * LENGTH('a) + b)
       (filter (\<lambda>b. \<not> test words (j * LENGTH('a) + b)) [0..<LENGTH('a)])) [0..<length words])"
    unfolding zeroFrom_def zeroPositions_def
    by (intro arg_cong[where f=concat] map_cong arg_cong[where f="map _"] filter_cong refl)
       (simp add: test_bit)
  also have "\<dots> = filter (\<lambda>p. \<not> test words p) [0..<length words * LENGTH('a)]"
    by (rule filter_blocks)
  finally show ?thesis .
qed

lemma zeroFrom_0_split:
  fixes words :: "'a::len word list"
  assumes "numBits \<le> length words * LENGTH('a)"
  shows "zeroFrom words 0 = zeroBits words numBits
           @ filter (\<lambda>p. \<not> test words p) [numBits..<length words * LENGTH('a)]"
proof -
  have "[0..<numBits + (length words * LENGTH('a) - numBits)]
          = [0..<numBits] @ [numBits..<numBits + (length words * LENGTH('a) - numBits)]"
    by (rule upt_add_eq_append) simp
  then have "[0..<length words * LENGTH('a)] = [0..<numBits] @ [numBits..<length words * LENGTH('a)]"
    using assms by simp
  then show ?thesis by (simp add: zeroFrom_0 zeroBits_def)
qed

lemma test_update:
  fixes words :: "'a::len word list"
  assumes "s < length words * LENGTH('a)"
  shows "test (words[s div LENGTH('a) := words ! (s div LENGTH('a)) OR 2 ^ (s mod LENGTH('a))]) p
          = (test words p \<or> p = s)"
proof -
  have sl: "s div LENGTH('a) < length words"
    using assms by (simp add: less_mult_imp_div_less)
  have "p = s" if "p div LENGTH('a) = s div LENGTH('a)" "p mod LENGTH('a) = s mod LENGTH('a)"
  proof -
    have "p = p div LENGTH('a) * LENGTH('a) + p mod LENGTH('a)" by simp
    also have "\<dots> = s div LENGTH('a) * LENGTH('a) + s mod LENGTH('a)" by (simp only: that)
    also have "\<dots> = s" by simp
    finally show ?thesis .
  qed
  then have eq: "(p div LENGTH('a) = s div LENGTH('a) \<and> p mod LENGTH('a) = s mod LENGTH('a)) = (p = s)"
    by blast
  show ?thesis
  proof (cases "p div LENGTH('a) = s div LENGTH('a)")
    case True
    have "test (words[s div LENGTH('a) := words ! (s div LENGTH('a)) OR 2 ^ (s mod LENGTH('a))]) p
        = (bit (words ! (s div LENGTH('a))) (p mod LENGTH('a)) \<or> p mod LENGTH('a) = s mod LENGTH('a))"
      using sl True by (simp add: test_bit bit_or_iff bit_exp_iff)
    also have "\<dots> = (test words p \<or> p = s)"
      using True eq by (simp add: test_bit)
    finally show ?thesis .
  next
    case False
    then have "p \<noteq> s" by blast
    with sl False show ?thesis
      by (simp add: test_bit)
  qed
qed

lemma test_mark:
  fixes words :: "'a::len word list"
  assumes "\<forall>s\<in>set sel. s < length words * LENGTH('a)"
  shows "test (mark sel words) p = (test words p \<or> p \<in> set sel)"
  using assms
proof (induction sel arbitrary: words)
  case Nil
  then show ?case by simp
next
  case (Cons s sel)
  let ?w1 = "words[s div LENGTH('a) := words ! (s div LENGTH('a)) OR 2 ^ (s mod LENGTH('a))]"
  have "mark (s # sel) words = mark sel ?w1" by (simp add: mark_def)
  moreover have "test (mark sel ?w1) p = (test ?w1 p \<or> p \<in> set sel)"
    using Cons.prems by (intro Cons.IH) simp
  moreover have "test ?w1 p = (test words p \<or> p = s)"
    using Cons.prems by (intro test_update) simp
  ultimately show ?case by (simp add: disj_ac)
qed

lemma zeros_popcount:
  "int LENGTH('a) - int (populationCount (w::'a::len word)) = int (length (zeroPositions w 0))"
  using sum_length_filter_compl[of "bit w" "[0..<LENGTH('a)]"]
  by (simp add: populationCount_def zeroPositions_def)

lemma zeroCount_step:
  "i < lim \<Longrightarrow> zeroCount words i lim = length (zeroPositions (words ! i) 0) + zeroCount words (Suc i) lim"
  by (simp add: zeroCount_def upt_conv_Cons)

lemma zeroCount_end [simp]: "zeroCount words lim lim = 0"
  by (simp add: zeroCount_def)

lemma countZeroes_spec:
  fixes words :: "'a::len word list"
  assumes "i \<le> lim"
  shows "case countZeroes words lim i z of
           (i', z') \<Rightarrow> (0 < z' \<longrightarrow> i' = lim \<and> z' = z - int (zeroCount words i lim))
                     \<and> (z' \<le> 0 \<longrightarrow> z \<le> int (zeroCount words i lim))"
  using assms
proof (induction "lim - i" arbitrary: i z)
  case 0
  then show ?case by (simp add: countZeroes.simps[of _ _ i])
next
  case (Suc n)
  then have ilt: "i < lim" by simp
  show ?case
  proof (cases "0 < z")
    case False
    then show ?thesis by (simp add: countZeroes.simps[of _ _ i])
  next
    case True
    have n: "n = lim - Suc i" using Suc.hyps(2) by simp
    have st: "countZeroes words lim i z =
          countZeroes words lim (Suc i) (z - int (length (zeroPositions (words ! i) 0)))"
      using ilt True by (subst countZeroes.simps) (simp add: zeros_popcount)
    from Suc.hyps(1)[OF n, of "z - int (length (zeroPositions (words ! i) 0))"] ilt
    show ?thesis
      by (auto simp add: st zeroCount_step[OF ilt] split: prod.splits)
  qed
qed

lemma length_concat_map_map:
  "length (concat (map (\<lambda>j. map (f j) (g j)) xs)) = length (concat (map g xs))"
  by (induction xs) simp_all

lemma length_zeroBits_blocks:
  fixes words :: "'a::len word list"
  shows "length (zeroBits words (q * LENGTH('a))) = zeroCount words 0 q"
proof -
  have "zeroBits words (q * LENGTH('a)) =
      concat (map (\<lambda>j. map (\<lambda>b. j * LENGTH('a) + b)
         (filter (\<lambda>b. \<not> test words (j * LENGTH('a) + b)) [0..<LENGTH('a)])) [0..<q])"
    unfolding zeroBits_def by (rule filter_blocks[symmetric])
  also have "length \<dots> =
      length (concat (map (\<lambda>j. filter (\<lambda>b. \<not> test words (j * LENGTH('a) + b)) [0..<LENGTH('a)]) [0..<q]))"
    by (rule length_concat_map_map)
  also have "\<dots> = zeroCount words 0 q"
    unfolding zeroCount_def zeroPositions_def
    by (intro arg_cong[where f=length] arg_cong[where f=concat] map_cong filter_cong refl)
       (simp add: test_bit)
  finally show ?thesis .
qed

lemma shift_upt: "[a..<a + r] = map (\<lambda>b. a + b) [0..<r]"
  using map_add_upt[of a r] by (simp add: add.commute)

lemma zeroBits_split:
  fixes words :: "'a::len word list"
  assumes "r \<le> LENGTH('a)"
  shows "zeroBits words (q * LENGTH('a) + r) =
     zeroBits words (q * LENGTH('a)) @ map (\<lambda>b. q * LENGTH('a) + b) (filter (\<lambda>b. \<not> bit (words ! q) b) [0..<r])"
proof -
  have "[0..<q * LENGTH('a) + r] = [0..<q * LENGTH('a)] @ [q * LENGTH('a)..<q * LENGTH('a) + r]"
    by (rule upt_add_eq_append) simp
  moreover have "filter (\<lambda>p. \<not> test words p) (map (\<lambda>b. q * LENGTH('a) + b) [0..<r])
       = map (\<lambda>b. q * LENGTH('a) + b) (filter (\<lambda>b. \<not> bit (words ! q) b) [0..<r])"
    unfolding filter_map comp_def
    by (intro arg_cong[where f="map _"] filter_cong refl) (use assms in \<open>simp add: test_bit\<close>)
  ultimately show ?thesis
    by (simp add: zeroBits_def shift_upt)
qed

lemma bit_lastw:
  "bit (NOT ((2::'a::len word) ^ r - 1)) b = (b < LENGTH('a) \<and> r \<le> b)"
  by (auto simp add: bit_not_iff bit_mask_iff simp flip: mask_eq_exp_minus_1)

lemma tail_zeroes:
  fixes w :: "'a::len word"
  assumes "r \<le> LENGTH('a)"
  shows "length (zeroPositions (w OR NOT (2 ^ r - 1)) 0) = length (filter (\<lambda>b. \<not> bit w b) [0..<r])"
proof -
  have "[0..<r + (LENGTH('a) - r)] = [0..<r] @ [r..<r + (LENGTH('a) - r)]"
    by (rule upt_add_eq_append) simp
  then have sp: "[0..<LENGTH('a)] = [0..<r] @ [r..<LENGTH('a)]" using assms by simp
  have a: "filter (\<lambda>b. \<not> bit (w OR NOT (2 ^ r - 1)) b) [0..<r] = filter (\<lambda>b. \<not> bit w b) [0..<r]"
    by (rule filter_cong) (auto simp add: bit_or_iff bit_lastw)
  have b: "filter (\<lambda>b. \<not> bit (w OR NOT (2 ^ r - 1)) b) [r..<LENGTH('a)] = []"
    by (auto simp add: filter_empty_conv bit_or_iff bit_lastw)
  show ?thesis
    unfolding zeroPositions_def by (subst sp) (simp add: a b)
qed


lemma nwords_eq:
  assumes "0 < (L::nat)"
  shows "(numBits + (L - 1)) div L = numBits div L + (if numBits mod L > 0 then 1 else 0)"
proof -
  define q where "q = numBits div L"
  define r where "r = numBits mod L"
  have nb: "numBits = q * L + r" by (simp add: q_def r_def)
  have rL: "r < L" using assms by (simp add: r_def)
  show ?thesis
  proof (cases "r > 0")
    case True
    have "q * L + r + (L - 1) = (q + 1) * L + (r - 1)"
      using True assms by (simp add: algebra_simps)
    moreover have "((q + 1) * L + (r - 1)) div L = (q + 1) + (r - 1) div L"
      using assms by (intro div_mult_self3) simp
    moreover have "r - 1 < L" using rL by simp
    ultimately have "(q * L + r + (L - 1)) div L = q + 1" by simp
    then show ?thesis using True unfolding nb[symmetric] by (simp add: q_def r_def)
  next
    case False
    have "(q * L + (L - 1)) div L = q + (L - 1) div L"
      using assms by (intro div_mult_self3) simp
    then have "(q * L + r + (L - 1)) div L = q" using False assms by simp
    then show ?thesis using False unfolding nb[symmetric] by (simp add: q_def r_def)
  qed
qed

lemma set_body_eq:
  fixes words :: "'a::len word list"
  assumes nb: "0 < numBits" and len: "length words = NUM_WORDS TYPE('a) numBits" and k: "0 < k"
  shows "set_body indexes words k numBits =
     (if int (length (zeroBits words numBits)) < k then Inr (False, indexes, words)
      else Inr (True, writeAll 0 (map int (take (nat k) (zeroBits words numBits))) indexes,
                mark (take (nat k) (zeroBits words numBits)) words))"
proof -
  define q where "q = numBits div LENGTH('a)"
  define r where "r = numBits mod LENGTH('a)"
  define Z where "Z = length (zeroBits words numBits)"
  have nbqr: "numBits = q * LENGTH('a) + r" by (simp add: q_def r_def)
  have rL: "r \<le> LENGTH('a)" by (simp add: r_def less_imp_le)
  have nw: "length words = q + (if r > 0 then 1 else 0)"
    using nwords_eq[of "LENGTH('a)" numBits] by (simp add: len NUM_WORDS_def q_def r_def)
  have lim: "length words - (if r > 0 then 1 else 0) = q" using nw by simp
  have fits: "numBits \<le> length words * LENGTH('a)"
    using nw rL by (auto simp add: nbqr)
  have Zsplit: "Z = zeroCount words 0 q + length (filter (\<lambda>b. \<not> bit (words ! q) b) [0..<r])"
    unfolding Z_def nbqr by (simp add: zeroBits_split[OF rL] length_zeroBits_blocks)
  have lastw: "NOT ((maskForBit numBits :: 'a word) - 1) = NOT (2 ^ r - 1)"
    by (simp add: maskForBit_def r_def)
  obtain i' z' where cz: "countZeroes words q 0 k = (i', z')" by (cases "countZeroes words q 0 k")
  from countZeroes_spec[where i=0 and lim=q and words=words and z=k] cz
  have spec: "0 < z' \<longrightarrow> i' = q \<and> z' = k - int (zeroCount words 0 q)"
             "z' \<le> 0 \<longrightarrow> k \<le> int (zeroCount words 0 q)" by simp_all
  define z'' where "z'' = (if z' > 0 \<and> r > 0
       then z' - (int LENGTH('a) - int (populationCount ((words ! i' AND WORD_MASK) OR NOT (2 ^ r - 1))))
       else z')"
  have lim': "(numBits + (LENGTH('a) - 1)) div LENGTH('a)
                - (if numBits mod LENGTH('a) > 0 then 1 else 0) = q"
    using lim by (simp add: len[unfolded NUM_WORDS_def] r_def)
  have body: "set_body indexes words k numBits =
       (if z'' > 0 then Inr (False, indexes, words) else setLoop indexes words k 0 0)"
    unfolding set_body_def Let_def lim' lastw cz
    by (simp add: z''_def r_def)
  have dec: "(z'' > 0) = (int Z < k)"
  proof (cases "z' > 0")
    case True
    with spec have i': "i' = q" and z': "z' = k - int (zeroCount words 0 q)" by simp_all
    show ?thesis
    proof (cases "r > 0")
      case True
      then have "z'' = z' - int (length (filter (\<lambda>b. \<not> bit (words ! q) b) [0..<r]))"
        using \<open>z' > 0\<close> by (simp add: z''_def zeros_popcount i' tail_zeroes[OF rL])
      then show ?thesis by (simp add: z' Zsplit) arith
    next
      case False
      then show ?thesis using True by (simp add: z''_def z' Zsplit)
    qed
  next
    case False
    then have "z'' = z'" by (simp add: z''_def)
    moreover have "k \<le> int Z" using False spec(2) by (simp add: Zsplit)
    ultimately show ?thesis using False by simp
  qed
  show ?thesis
  proof (cases "int Z < k")
    case True
    then show ?thesis using body dec by (simp add: Z_def)
  next
    case False
    have sp: "zeroFrom words 0 = zeroBits words numBits
           @ filter (\<lambda>p. \<not> test words p) [numBits..<length words * LENGTH('a)]"
      using fits by (rule zeroFrom_0_split)
    have kZ: "nat k \<le> Z" using False by simp
    then have tk: "take (nat k) (zeroFrom words 0) = take (nat k) (zeroBits words numBits)"
      by (simp add: sp Z_def)
    have "nat (k - 0) \<le> length (zeroFrom words 0)" using kZ by (simp add: sp Z_def)
    from setLoop_eq[OF _ this, of indexes] tk
    have "setLoop indexes words k 0 0 =
        Inr (True, writeAll 0 (map int (take (nat k) (zeroBits words numBits))) indexes,
                mark (take (nat k) (zeroBits words numBits)) words)" by simp
    then show ?thesis using body dec False by (simp add: Z_def)
  qed
qed

lemma sorted_zeroBits: "sorted_wrt (<) (zeroBits words n)"
  unfolding zeroBits_def by (rule sorted_wrt_filter) (simp add: sorted_wrt_upt)

lemma sorted_take_int: "sorted_wrt (<) xs \<Longrightarrow> sorted_wrt (<) (map int (take n xs))"
  by (simp add: sorted_wrt_map sorted_wrt_take)

lemma fits_words:
  fixes words :: "'a::len word list"
  assumes "length words = NUM_WORDS TYPE('a) numBits"
  shows "numBits \<le> length words * LENGTH('a)"
proof -
  define q where "q = numBits div LENGTH('a)"
  define r where "r = numBits mod LENGTH('a)"
  have nb: "numBits = q * LENGTH('a) + r" by (simp add: q_def r_def)
  have rL: "r < LENGTH('a)" by (simp add: r_def)
  have "length words = q + (if r > 0 then 1 else 0)"
    using nwords_eq[of "LENGTH('a)" numBits] by (simp add: assms NUM_WORDS_def q_def r_def)
  then have "length words * LENGTH('a) = q * LENGTH('a) + (if r > 0 then LENGTH('a) else 0)"
    by (simp add: add_mult_distrib)
  with rL show ?thesis unfolding nb by simp
qed

text \<open>
  Claim C5. For a bit set of \<open>NumBits > 0\<close> bits, every state of its words and every
  \<open>k \<ge> 1\<close> (with room for \<open>k\<close> indexes in the output array): if fewer than \<open>k\<close> of the
  \<open>NumBits\<close> bits are zero, \<open>Bitset_set\<close> returns false and leaves words and output array
  as they were; otherwise it returns true, the first \<open>k\<close> entries of the output array are the
  \<open>k\<close> lowest indexes of zero bits, strictly ascending, the rest of the array is untouched,
  and a bit of the words (padding included) is one afterwards exactly if it was one before or
  is one of these \<open>k\<close> bits.
\<close>

theorem Bitset_set_contract:
  fixes bits :: "'a::len word list"
  assumes "0 < NumBits" and "length bits = NUM_WORDS TYPE('a) NumBits"
    and "1 \<le> k" and "nat k \<le> length indexes"
  shows "(int (length (zeroBits bits NumBits)) < k \<longrightarrow>
            Bitset_set NumBits bits indexes k = Inr (False, indexes, bits))
       \<and> (k \<le> int (length (zeroBits bits NumBits)) \<longrightarrow>
            (\<exists>bits'. Bitset_set NumBits bits indexes k
                 = Inr (True, map int (take (nat k) (zeroBits bits NumBits)) @ drop (nat k) indexes, bits')
               \<and> length bits' = length bits
               \<and> (\<forall>p < length bits * LENGTH('a).
                     test bits' p = (test bits p \<or> p \<in> set (take (nat k) (zeroBits bits NumBits))))))
       \<and> sorted_wrt (<) (map int (take (nat k) (zeroBits bits NumBits)))"
proof -
  let ?zs = "zeroBits bits NumBits"
  have k0: "0 < k" and nk: "\<not> \<not> 0 < k" using assms(3) by simp_all
  have eq: "Bitset_set NumBits bits indexes k =
     (if int (length ?zs) < k then Inr (False, indexes, bits)
      else Inr (True, writeAll 0 (map int (take (nat k) ?zs)) indexes, mark (take (nat k) ?zs) bits))"
    using set_body_eq[OF assms(1,2) k0, of indexes] assms(1) k0
    by (simp add: Bitset_set_def detail_set_def)
  have fits: "NumBits \<le> length bits * LENGTH('a)"
    using assms(2) by (rule fits_words)
  have inrange: "\<forall>s\<in>set (take (nat k) ?zs). s < length bits * LENGTH('a)"
    using fits by (auto simp add: zeroBits_def dest!: in_set_takeD)
  have A: "int (length ?zs) < k \<longrightarrow> Bitset_set NumBits bits indexes k = Inr (False, indexes, bits)"
    by (simp add: eq)
  have B: "k \<le> int (length ?zs) \<longrightarrow>
            (\<exists>bits'. Bitset_set NumBits bits indexes k
                 = Inr (True, map int (take (nat k) ?zs) @ drop (nat k) indexes, bits')
               \<and> length bits' = length bits
               \<and> (\<forall>p < length bits * LENGTH('a).
                     test bits' p = (test bits p \<or> p \<in> set (take (nat k) ?zs))))"
  proof
    assume le: "k \<le> int (length ?zs)"
    then have len: "length (map int (take (nat k) ?zs)) = nat k" by simp
    have "writeAll 0 (map int (take (nat k) ?zs)) indexes
            = take 0 indexes @ map int (take (nat k) ?zs) @ drop (0 + length (map int (take (nat k) ?zs))) indexes"
      by (rule writeAll_eq) (use assms(4) len in simp)
    then have w: "writeAll 0 (map int (take (nat k) ?zs)) indexes
            = map int (take (nat k) ?zs) @ drop (nat k) indexes"
      using len by simp
    show "\<exists>bits'. Bitset_set NumBits bits indexes k
                 = Inr (True, map int (take (nat k) ?zs) @ drop (nat k) indexes, bits')
               \<and> length bits' = length bits
               \<and> (\<forall>p < length bits * LENGTH('a).
                     test bits' p = (test bits p \<or> p \<in> set (take (nat k) ?zs)))"
    proof (intro exI conjI allI impI)
      show "Bitset_set NumBits bits indexes k
          = Inr (True, map int (take (nat k) ?zs) @ drop (nat k) indexes, mark (take (nat k) ?zs) bits)"
        using le by (simp add: eq w)
      show "length (mark (take (nat k) ?zs) bits) = length bits" by simp
      show "test (mark (take (nat k) ?zs) bits) p = (test bits p \<or> p \<in> set (take (nat k) ?zs))" for p
        using inrange by (rule test_mark)
    qed
  qed
  have C: "sorted_wrt (<) (map int (take (nat k) ?zs))"
    by (intro sorted_take_int sorted_zeroBits)
  from A B C show ?thesis by (intro conjI)
qed

theorem Bitset_set_contract_witness:
  "Bitset_set 8 [0x3B :: 8 word] [0, 0, 0, 0] 4 = Inr (False, [0, 0, 0, 0], [0x3B])
   \<and> (\<exists>bits'. Bitset_set 8 [0x3B :: 8 word] [0, 0, 0, 0] 3 = Inr (True, [2, 6, 7, 0], bits')
         \<and> length bits' = 1)"
proof -
  have zs: "zeroBits [0x3B :: 8 word] 8 = [2, 6, 7]"
    by (simp add: zeroBits_def test_def wordForBit_def maskForBit_def upt_rec[of _ "numeral _"] upt_rec[of 0])
  have a: "Bitset_set 8 [0x3B :: 8 word] [0, 0, 0, 0] 4 = Inr (False, [0, 0, 0, 0], [0x3B])"
    using Bitset_set_contract[of 8 "[0x3B :: 8 word]" 4 "[0, 0, 0, 0]"]
    by (simp add: zs NUM_WORDS_def)
  have b: "\<exists>bits'. Bitset_set 8 [0x3B :: 8 word] [0, 0, 0, 0] 3 = Inr (True, [2, 6, 7, 0], bits')
         \<and> length bits' = 1"
    using Bitset_set_contract[of 8 "[0x3B :: 8 word]" 3 "[0, 0, 0, 0]"]
    by (auto simp add: zs NUM_WORDS_def)
  from a b show ?thesis ..
qed

subsection \<open>The block allocator\<close>

lemma set_body_zero: "set_body indexes bits 0 numBits = Inr (True, indexes, bits)"
  by (simp add: set_body_def countZeroes.simps[of _ _ 0 0] setLoop.simps[of _ _ 0 0 0] Let_def)

lemma allocate_too_many:
  "MAX_BLOCKS_PER_CHUNK tr < n \<Longrightarrow> allocate tr blockOffsets n ba = (Inl OutOfRange, ba)"
  by (simp add: allocate_def)

text \<open>
  Claim C8, at the input \<open>n = 0\<close>: \<open>allocate\<close> passes its range check and calls the bit
  set with zero bits to set, where the assertion \<^verbatim>\<open>numBitsToSet > 0\<close> fails. With the
  assertions compiled out, the same call of the bit set returns true and changes nothing.
\<close>

theorem allocate_zero_asserts:
  "allocate tr blockOffsets 0 ba = (Inl AssertionFailure, ba)
   \<and> set_body indexes (allocator_bits ba) 0 (NUM_BLOCKS tr) = Inr (True, indexes, allocator_bits ba)"
  by (simp add: allocate_def Bitset_set_def detail_set_def set_body_zero)

section \<open>The hashed set keeps its free list and its chains apart\<close>

declare checkLoop.simps [simp del] findSuccessor.simps [simp del]

subsection \<open>Chains\<close>

lemma chain_path: "chain f es i = Some l \<Longrightarrow> path es i l \<and> length l \<le> f"
proof (induction f arbitrary: i l)
  case 0
  then show ?case by (auto split: if_splits)
next
  case (Suc f)
  show ?case
  proof (cases "i < 0")
    case True
    with Suc.prems show ?thesis by simp
  next
    case False
    with Suc.prems obtain l' where l': "chain f es (getNextInChain (es ! nat i)) = Some l'"
      and l: "l = nat i # l'" and r: "nat i < length es"
      by (auto split: if_splits)
    from Suc.IH[OF l'] False r show ?thesis by (simp add: l)
  qed
qed

lemma path_chain: "path es i l \<Longrightarrow> length l \<le> f \<Longrightarrow> chain f es i = Some l"
proof (induction l arbitrary: i f)
  case Nil
  then show ?case by (cases f) simp_all
next
  case (Cons x xs)
  then obtain f' where f: "f = Suc f'" by (cases f) auto
  with Cons show ?case by simp
qed

lemma path_unique: "path es i l \<Longrightarrow> path es i l' \<Longrightarrow> l = l'"
proof (induction l arbitrary: i l')
  case Nil
  then show ?case by (cases l') auto
next
  case (Cons x xs)
  then show ?case by (cases l') auto
qed

lemma path_bound: "path es i l \<Longrightarrow> set l \<subseteq> {0..<length es}"
  by (induction l arbitrary: i) auto

lemma distinct_bound_length:
  assumes "distinct l" "set l \<subseteq> {0..<n::nat}"
  shows "length l \<le> n"
proof -
  have "length l = card (set l)" using assms(1) by (simp add: distinct_card)
  also have "\<dots> \<le> card {0..<n}" using assms(2) by (intro card_mono) simp_all
  finally show ?thesis by simp
qed

lemma path_cong:
  "length es' = length es \<Longrightarrow> \<forall>x\<in>set l. getNextInChain (es' ! x) = getNextInChain (es ! x)
     \<Longrightarrow> path es' i l = path es i l"
  by (induction l arbitrary: i) auto

lemma seg_cong:
  "length es' = length es \<Longrightarrow> \<forall>x\<in>set l. getNextInChain (es' ! x) = getNextInChain (es ! x)
     \<Longrightarrow> seg es' i l j = seg es i l j"
  by (induction l arbitrary: i) auto

lemma path_append: "path es i (xs @ ys) = (\<exists>m. seg es i xs m \<and> path es m ys)"
  by (induction xs arbitrary: i) auto

lemma seg_append: "seg es i (xs @ ys) j = (\<exists>m. seg es i xs m \<and> seg es m ys j)"
  by (induction xs arbitrary: i) auto

lemma seg_snoc:
  "seg es i (xs @ [x]) j = (seg es i xs (int x) \<and> x < length es \<and> getNextInChain (es ! x) = j)"
  by (auto simp add: seg_append)

lemma path_Nil_iff: "i < 0 \<Longrightarrow> path es i l = (l = [])"
  by (cases l) auto

subsection \<open>The walk along a chain\<close>

lemma walk_not_found:
  "path es i l \<Longrightarrow> length l \<le> f \<Longrightarrow> \<forall>x\<in>set l. getId (es ! x) \<noteq> ident \<Longrightarrow>
   \<exists>j<0. walk f es ident i lst = Inr (j, if l = [] then lst else int (last l))"
proof (induction l arbitrary: i f lst)
  case Nil
  then show ?case by (cases f) auto
next
  case (Cons x xs)
  then obtain f' where f: "f = Suc f'" by (cases f) auto
  from Cons.prems have p: "path es (getNextInChain (es ! x)) xs" and lf: "length xs \<le> f'"
    and nf: "\<forall>y\<in>set xs. getId (es ! y) \<noteq> ident" and ix: "i = int x" "x < length es"
    and nx: "getId (es ! x) \<noteq> ident"
    by (auto simp add: f)
  from Cons.IH[OF p lf nf, of "int x"] obtain j where
    j: "j < 0" "walk f' es ident (getNextInChain (es ! x)) (int x) = Inr (j, if xs = [] then int x else int (last xs))"
    by auto
  show ?case
    using j ix nx by (auto simp add: f)
qed

lemma walk_found:
  "path es i (pre @ x # post) \<Longrightarrow> length pre \<le> f \<Longrightarrow> \<forall>y\<in>set pre. getId (es ! y) \<noteq> ident \<Longrightarrow>
   getId (es ! x) = ident \<Longrightarrow>
   walk f es ident i lst = Inr (int x, if pre = [] then lst else int (last pre))"
proof (induction pre arbitrary: i f lst)
  case Nil
  then show ?case by (cases f) auto
next
  case (Cons y ys)
  then obtain f' where f: "f = Suc f'" by (cases f) auto
  from Cons.prems have p: "path es (getNextInChain (es ! y)) (ys @ x # post)" and lf: "length ys \<le> f'"
    and nf: "\<forall>z\<in>set ys. getId (es ! z) \<noteq> ident" and iy: "i = int y" "y < length es"
    and ny: "getId (es ! y) \<noteq> ident"
    by (auto simp add: f)
  from Cons.IH[OF p lf nf Cons.prems(4), of "int y"]
  show ?case using iy ny by (auto simp add: f)
qed


subsection \<open>The invariant of the hashed set\<close>

lemma unat_mask_word:
  assumes "0 < k" "k \<le> 2 ^ 32"
  shows "unat (word_of_nat k - 1 :: 32 word) = k - 1"
proof (cases "k = 2 ^ 32")
  case True
  have "(word_of_nat k :: 32 word) = 0"
    unfolding True by (simp add: word_of_nat_eq_0_iff)
  then show ?thesis using True by (simp add: unsigned_minus_1_eq_mask mask_eq_exp_minus_1)
next
  case False
  with assms have lt: "k < 2 ^ 32" by simp
  have u: "unat (word_of_nat k :: 32 word) = k"
    by (simp only: unat_of_nat) (use lt in simp)
  have "unat (word_of_nat k - 1 :: 32 word) = unat (word_of_nat k :: 32 word) - unat (1 :: 32 word)"
    by (rule unat_sub) (use u assms in \<open>simp add: word_le_nat_alt\<close>)
  then show ?thesis using u by simp
qed

lemma bucketOf_less:
  assumes "0 < n" "2 * n \<le> 2 ^ 32"
  shows "bucketOf n ident < 2 * n"
proof -
  define k where "k = 2 * n"
  have k: "0 < k" "k \<le> 2 ^ 32" using assms by (simp_all add: k_def)
  have "unat (hash ident AND (word_of_nat k - 1)) \<le> unat (word_of_nat k - 1 :: 32 word)"
    by (simp add: word_and_le1 word_le_nat_alt[symmetric])
  also have "\<dots> = k - 1" using k by (rule unat_mask_word)
  finally have "bucketOf n ident \<le> k - 1" by (simp only: bucketOf_def k_def)
  then show ?thesis using k by (simp add: k_def)
qed

lemma hs_ok_iff: "hs_ok hs = (\<exists>fl cls. hs_inv hs fl cls)"
proof
  assume ok: "hs_ok hs"
  let ?n = "length (entries hs)"
  from ok obtain fl where fl: "freeList hs = Some fl" by (auto simp add: hs_ok_def chains_ok_def)
  define cls where "cls b = the (bucketChain hs b)" for b
  have bc: "bucketChain hs b = Some (cls b)" if "b < 2 * ?n" for b
    using ok that by (auto simp add: hs_ok_def chains_ok_def list_all_iff cls_def)
  have "hs_inv hs fl cls"
    unfolding hs_inv_def
  proof (intro conjI allI impI ballI)
    show "0 < ?n" "2 * ?n \<le> 2 ^ 32" "length (hashTable hs) = 2 * ?n"
      using ok by (simp_all add: hs_ok_def chains_ok_def)
    show "path (entries hs) (freeHead hs) fl"
      using fl chain_path by (auto simp add: freeList_def)
    show "path (entries hs) (hashTable hs ! b) (cls b)" if "b < 2 * ?n" for b
      using bc[OF that] chain_path by (auto simp add: bucketChain_def)
    show "distinct fl" using ok fl by (simp add: hs_ok_def chains_ok_def)
    show "getId (entries hs ! i) = - 1" if "i \<in> set fl" for i
      using ok fl that by (auto simp add: hs_ok_def chains_ok_def list_all_iff)
    show "getId (entries hs ! i) \<noteq> - 1" if "b < 2 * ?n" "i \<in> set (cls b)" for b i
      using ok that by (auto simp add: hs_ok_def chains_ok_def list_all_iff cls_def)
    show "bucketOf ?n (getId (entries hs ! i)) = b" if "b < 2 * ?n" "i \<in> set (cls b)" for b i
      using ok that by (auto simp add: hs_ok_def chains_ok_def list_all_iff cls_def)
    show "distinct (map (\<lambda>i. getId (entries hs ! i)) (cls b))" if "b < 2 * ?n" for b
      using ok that by (auto simp add: hs_ok_def chains_ok_def list_all_iff cls_def)
    show "i \<in> set fl \<or> (\<exists>b<2 * ?n. i \<in> set (cls b))" if "i < ?n" for i
    proof -
      from ok that have "isFree hs i \<or> isMember hs i"
        by (auto simp add: hs_ok_def chains_ok_def list_all_iff)
      then show ?thesis
      proof
        assume "isFree hs i"
        then show ?thesis by (simp add: isFree_def fl)
      next
        assume "isMember hs i"
        then obtain b where b: "b < length (hashTable hs)"
          and m: "case bucketChain hs b of None \<Rightarrow> False | Some l \<Rightarrow> i \<in> set l"
          by (auto simp add: isMember_def list_ex_iff)
        from ok b have b': "b < 2 * ?n" by (simp add: hs_ok_def chains_ok_def)
        with m bc[OF b'] show ?thesis by auto
      qed
    qed
  qed
  then show "\<exists>fl cls. hs_inv hs fl cls" by blast
next
  assume "\<exists>fl cls. hs_inv hs fl cls"
  then obtain fl cls where inv: "hs_inv hs fl cls" by blast
  let ?n = "length (entries hs)"
  have sz: "0 < ?n" "2 * ?n \<le> 2 ^ 32" "length (hashTable hs) = 2 * ?n"
    using inv by (simp_all add: hs_inv_def)
  have pf: "path (entries hs) (freeHead hs) fl" using inv by (simp add: hs_inv_def)
  have dfl: "distinct fl" using inv by (simp add: hs_inv_def)
  have fl: "freeList hs = Some fl"
    unfolding freeList_def using pf
    by (rule path_chain) (intro distinct_bound_length dfl path_bound[OF pf])
  have pc: "path (entries hs) (hashTable hs ! b) (cls b)" if "b < 2 * ?n" for b
    using inv that by (simp add: hs_inv_def)
  have dc: "distinct (cls b)" if "b < 2 * ?n" for b
    using inv that by (auto simp add: hs_inv_def distinct_map)
  have bc: "bucketChain hs b = Some (cls b)" if "b < 2 * ?n" for b
    unfolding bucketChain_def using pc[OF that]
    by (rule path_chain) (intro distinct_bound_length dc[OF that] path_bound[OF pc[OF that]])
  show "hs_ok hs"
    unfolding hs_ok_def chains_ok_def
  proof (intro conjI)
    show "0 < ?n" "2 * ?n \<le> 2 ^ 32" "length (hashTable hs) = 2 * ?n" by (fact sz)+
    show "freeList hs \<noteq> None" by (simp add: fl)
    show "list_all (\<lambda>b. bucketChain hs b \<noteq> None) [0..<length (hashTable hs)]"
      by (simp add: list_all_iff sz bc)
    show "distinct (the (freeList hs))" by (simp add: fl dfl)
    show "list_all (\<lambda>i. getId (entries hs ! i) = - 1) (the (freeList hs))"
      using inv by (simp add: fl list_all_iff hs_inv_def)
    show "list_all (\<lambda>b. list_all (\<lambda>i. getId (entries hs ! i) \<noteq> - 1
                                  \<and> bucketOf ?n (getId (entries hs ! i)) = b)
                        (the (bucketChain hs b))) [0..<length (hashTable hs)]"
      using inv by (simp add: list_all_iff sz bc hs_inv_def)
    show "list_all (\<lambda>b. distinct (map (\<lambda>i. getId (entries hs ! i)) (the (bucketChain hs b))))
          [0..<length (hashTable hs)]"
      using inv by (simp add: list_all_iff sz bc hs_inv_def)
    show "list_all (\<lambda>i. isFree hs i \<or> isMember hs i) [0..<?n]"
      unfolding list_all_iff
    proof
      fix i assume "i \<in> set [0..<?n]"
      then have "i < ?n" by simp
      with inv have "i \<in> set fl \<or> (\<exists>b<2 * ?n. i \<in> set (cls b))" by (simp add: hs_inv_def)
      then show "isFree hs i \<or> isMember hs i"
      proof
        assume "i \<in> set fl"
        then show ?thesis by (simp add: isFree_def fl)
      next
        assume "\<exists>b<2 * ?n. i \<in> set (cls b)"
        then obtain b where "b < 2 * ?n" "i \<in> set (cls b)" by blast
        then have "isMember hs i"
          unfolding isMember_def list_ex_iff using bc[of b] sz
          by (intro bexI[of _ b]) simp_all
        then show ?thesis ..
      qed
    qed
  qed
qed

subsection \<open>Consequences of the invariant\<close>

lemma invD_size:
  "hs_inv hs fl cls \<Longrightarrow> 0 < length (entries hs) \<and> 2 * length (entries hs) \<le> 2 ^ 32
     \<and> length (hashTable hs) = 2 * length (entries hs)"
  by (simp add: hs_inv_def)

lemma invD_free: "hs_inv hs fl cls \<Longrightarrow> path (entries hs) (freeHead hs) fl"
  by (simp add: hs_inv_def)

lemma invD_chain:
  "hs_inv hs fl cls \<Longrightarrow> b < 2 * length (entries hs) \<Longrightarrow> path (entries hs) (hashTable hs ! b) (cls b)"
  by (simp add: hs_inv_def)

lemma invD_dfl: "hs_inv hs fl cls \<Longrightarrow> distinct fl"
  by (simp add: hs_inv_def)

lemma invD_flid: "hs_inv hs fl cls \<Longrightarrow> i \<in> set fl \<Longrightarrow> getId (entries hs ! i) = - 1"
  by (simp add: hs_inv_def)

lemma invD_cid:
  "hs_inv hs fl cls \<Longrightarrow> b < 2 * length (entries hs) \<Longrightarrow> i \<in> set (cls b) \<Longrightarrow>
   getId (entries hs ! i) \<noteq> - 1"
  by (simp add: hs_inv_def)

lemma invD_cbucket:
  "hs_inv hs fl cls \<Longrightarrow> b < 2 * length (entries hs) \<Longrightarrow> i \<in> set (cls b) \<Longrightarrow>
   bucketOf (length (entries hs)) (getId (entries hs ! i)) = b"
  by (simp add: hs_inv_def)

lemma invD_cdist:
  "hs_inv hs fl cls \<Longrightarrow> b < 2 * length (entries hs) \<Longrightarrow>
   distinct (map (\<lambda>i. getId (entries hs ! i)) (cls b))"
  by (simp add: hs_inv_def)

lemma invD_cover:
  "hs_inv hs fl cls \<Longrightarrow> i < length (entries hs) \<Longrightarrow>
   i \<in> set fl \<or> (\<exists>b < 2 * length (entries hs). i \<in> set (cls b))"
  by (simp add: hs_inv_def)

lemma inv_chain_distinct:
  "hs_inv hs fl cls \<Longrightarrow> b < 2 * length (entries hs) \<Longrightarrow> distinct (cls b)"
  using invD_cdist[of hs fl cls b] by (simp add: distinct_map)

lemma inv_chain_bound:
  "hs_inv hs fl cls \<Longrightarrow> b < 2 * length (entries hs) \<Longrightarrow> set (cls b) \<subseteq> {0..<length (entries hs)}"
  using invD_chain[of hs fl cls b] by (rule path_bound)

lemma inv_chain_length:
  "hs_inv hs fl cls \<Longrightarrow> b < 2 * length (entries hs) \<Longrightarrow> length (cls b) \<le> length (entries hs)"
  by (intro distinct_bound_length inv_chain_distinct inv_chain_bound)

lemma inv_fl_bound: "hs_inv hs fl cls \<Longrightarrow> set fl \<subseteq> {0..<length (entries hs)}"
  using invD_free[of hs fl cls] by (rule path_bound)

lemma inv_free_not_member:
  "hs_inv hs fl cls \<Longrightarrow> i \<in> set fl \<Longrightarrow> b < 2 * length (entries hs) \<Longrightarrow> i \<notin> set (cls b)"
  using invD_flid[of hs fl cls i] invD_cid[of hs fl cls b i] by blast

lemma inv_chains_disjoint:
  "hs_inv hs fl cls \<Longrightarrow> b < 2 * length (entries hs) \<Longrightarrow> b' < 2 * length (entries hs) \<Longrightarrow>
   i \<in> set (cls b) \<Longrightarrow> i \<in> set (cls b') \<Longrightarrow> b = b'"
  using invD_cbucket[of hs fl cls b i] invD_cbucket[of hs fl cls b' i] by simp

lemma inv_bucket: "hs_inv hs fl cls \<Longrightarrow> bucketOf (length (entries hs)) ident < 2 * length (entries hs)"
  using invD_size[of hs fl cls] by (simp add: bucketOf_less)

text \<open>What the walk returns on a well-formed set.\<close>

lemma walkBucket_found:
  assumes inv: "hs_inv hs fl cls"
    and l: "cls (bucketOf (length (entries hs)) ident) = pre @ x # post"
    and idx: "getId (entries hs ! x) = ident"
  shows "walkBucket hs ident = Inr (int x, if pre = [] then - 1 else int (last pre))"
proof -
  let ?n = "length (entries hs)"
  let ?b = "bucketOf ?n ident"
  have b: "?b < 2 * ?n" using inv by (rule inv_bucket)
  have p: "path (entries hs) (hashTable hs ! ?b) (pre @ x # post)"
    using invD_chain[OF inv b] l by simp
  have "length (cls ?b) \<le> ?n" using inv b by (rule inv_chain_length)
  then have len: "length pre \<le> ?n" by (simp add: l)
  have "distinct (map (\<lambda>i. getId (entries hs ! i)) (cls ?b))"
    using inv b by (rule invD_cdist)
  then have nf: "\<forall>y\<in>set pre. getId (entries hs ! y) \<noteq> ident"
    by (auto simp add: l idx)
  show ?thesis
    unfolding walkBucket_def using p len nf idx by (rule walk_found)
qed

lemma walkBucket_not_found:
  assumes inv: "hs_inv hs fl cls"
    and nf: "\<forall>y\<in>set (cls (bucketOf (length (entries hs)) ident)). getId (entries hs ! y) \<noteq> ident"
  shows "\<exists>j<0. walkBucket hs ident =
           Inr (j, if cls (bucketOf (length (entries hs)) ident) = [] then - 1
                   else int (last (cls (bucketOf (length (entries hs)) ident))))"
proof -
  let ?n = "length (entries hs)"
  let ?b = "bucketOf ?n ident"
  have b: "?b < 2 * ?n" using inv by (rule inv_bucket)
  have p: "path (entries hs) (hashTable hs ! ?b) (cls ?b)"
    using inv b by (rule invD_chain)
  have len: "length (cls ?b) \<le> ?n" using inv b by (rule inv_chain_length)
  show ?thesis
    unfolding walkBucket_def using p len nf by (rule walk_not_found)
qed

lemma split_first_id:
  assumes "\<exists>y\<in>set l. getId (es ! y) = ident"
  shows "\<exists>pre x post. l = pre @ x # post \<and> getId (es ! x) = ident"
proof -
  from assms obtain y where y: "y \<in> set l" "getId (es ! y) = ident" by blast
  from split_list[OF y(1)] obtain pre post where "l = pre @ y # post" by blast
  with y(2) show ?thesis by blast
qed

text \<open>Membership decides the lookup.\<close>

lemma doFind_found:
  assumes inv: "hs_inv hs fl cls"
    and x: "x \<in> set (cls (bucketOf (length (entries hs)) ident))"
    and idx: "getId (entries hs ! x) = ident"
  shows "doFind hs ident = Inr (Some x)"
proof -
  from split_list[OF x] obtain pre post where
    l: "cls (bucketOf (length (entries hs)) ident) = pre @ x # post" by blast
  show ?thesis
    by (simp add: doFind_def walkBucket_found[OF inv l idx])
qed

lemma doFind_not_found:
  assumes inv: "hs_inv hs fl cls"
    and nf: "\<forall>y\<in>set (cls (bucketOf (length (entries hs)) ident)). getId (entries hs ! y) \<noteq> ident"
  shows "doFind hs ident = Inr None"
proof -
  from walkBucket_not_found[OF inv nf] obtain j where "j < 0"
    "walkBucket hs ident =
           Inr (j, if cls (bucketOf (length (entries hs)) ident) = [] then - 1
                   else int (last (cls (bucketOf (length (entries hs)) ident))))" by blast
  then show ?thesis by (simp add: doFind_def)
qed

lemma doFind_total: "hs_ok hs \<Longrightarrow> \<exists>r. doFind hs ident = Inr r"
proof -
  assume "hs_ok hs"
  then obtain fl cls where inv: "hs_inv hs fl cls" unfolding hs_ok_iff by blast
  show ?thesis
  proof (cases "\<exists>y\<in>set (cls (bucketOf (length (entries hs)) ident)). getId (entries hs ! y) = ident")
    case True
    then obtain y where "y \<in> set (cls (bucketOf (length (entries hs)) ident))"
      "getId (entries hs ! y) = ident" by blast
    from doFind_found[OF inv this] show ?thesis by blast
  next
    case False
    then have "\<forall>y\<in>set (cls (bucketOf (length (entries hs)) ident)). getId (entries hs ! y) \<noteq> ident"
      by blast
    from doFind_not_found[OF inv this] show ?thesis by blast
  qed
qed

lemma isValid_total: "hs_ok tracker \<Longrightarrow> \<exists>r. isValid tracker v = Inr r"
proof -
  assume "hs_ok tracker"
  from doFind_total[OF this, of v] obtain r where "doFind tracker v = Inr r" by blast
  then show ?thesis by (cases r) (auto simp add: isValid_def)
qed

subsection \<open>Erasing and linking an entry\<close>

lemma erase_found:
  fixes hs :: "'p HashedSet"
  assumes inv: "hs_inv hs fl cls"
    and l: "cls (bucketOf (length (entries hs)) ident) = pre @ x # post"
    and idx: "getId (entries hs ! x) = ident"
  shows "\<exists>hs'. erase ident hs = (Inr True, hs')
           \<and> hs_inv hs' (x # fl) (cls(bucketOf (length (entries hs)) ident := pre @ post))
           \<and> length (entries hs') = length (entries hs)
           \<and> (\<forall>j. payload (entries hs' ! j) = payload (entries hs ! j))
           \<and> (\<forall>j. j \<noteq> x \<longrightarrow> getId (entries hs' ! j) = getId (entries hs ! j))
           \<and> getId (entries hs' ! x) = - 1
           \<and> (\<forall>j. j \<noteq> x \<longrightarrow>
                  getNextInChain (entries hs' ! j) = getNextInChain (entries hs ! j)
                  \<or> getNextInChain (entries hs ! j) = int x)"
proof -
  let ?n = "length (entries hs)"
  define b where "b = bucketOf ?n ident"
  define es where "es = entries hs"
  define ht where "ht = hashTable hs"
  define F where "F = freeHead hs"
  define nxt where "nxt = getNextInChain (es ! x)"
  define p where "p = last pre"
  define es1 where "es1 = (if pre = [] then es else es[p := setNextInChain nxt (es ! p)])"
  define es2 where "es2 = es1[x := setNextInChain F (setId (- 1) (es1 ! x))]"
  define ht' where "ht' = (if pre = [] then ht[b := nxt] else ht)"
  define hs' where "hs' = hs\<lparr>hashTable := ht', entries := es2, freeHead := int x,
                               set_size := set_size hs - 1\<rparr>"
  define cls' where "cls' = cls(b := pre @ post)"
  have n: "length es = ?n" by (simp add: es_def)
  have sz: "0 < ?n" "2 * ?n \<le> 2 ^ 32" "length ht = 2 * ?n"
    using invD_size[OF inv] by (simp_all add: ht_def)
  have b: "b < 2 * ?n" unfolding b_def using inv by (rule inv_bucket)
  have lb: "cls b = pre @ x # post" using l by (simp add: b_def)
  have dist: "distinct (pre @ x # post)" using inv_chain_distinct[OF inv b] by (simp add: lb)
  have bound: "set (pre @ x # post) \<subseteq> {0..<?n}" using inv_chain_bound[OF inv b] by (simp add: lb)
  have xn: "x < ?n" using bound by simp
  have pp: "p \<in> set pre" if "pre \<noteq> []" using that by (simp add: p_def)
  have pn: "p < ?n" if "pre \<noteq> []" using pp[OF that] bound by auto
  have px: "p \<noteq> x" if "pre \<noteq> []" using pp[OF that] dist by auto
  have xfl: "x \<notin> set fl"
    using inv_free_not_member[OF inv _ b, of x] by (auto simp add: lb)
  have pfl: "p \<notin> set fl" if "pre \<noteq> []"
    using inv_free_not_member[OF inv _ b, of p] pp[OF that] by (auto simp add: lb)
  have other: "x \<notin> set (cls b')" "pre \<noteq> [] \<longrightarrow> p \<notin> set (cls b')" if "b' < 2 * ?n" "b' \<noteq> b" for b'
    using inv_chains_disjoint[OF inv that(1) b, of x] inv_chains_disjoint[OF inv that(1) b, of p]
      that(2) pp by (auto simp add: lb)
  text \<open>the new entries\<close>
  have len1: "length es1 = ?n" by (simp add: es1_def n)
  have len2: "length es2 = ?n" by (simp add: es2_def len1)
  have lnk: "getNextInChain (es2 ! y) =
      (if y = x then F else if pre \<noteq> [] \<and> y = p then nxt else getNextInChain (es ! y))" if "y < ?n" for y
    using that xn pn px
    by (auto simp add: es2_def es1_def n len1 nth_list_update setNextInChain_def setId_def)
  have ids: "getId (es2 ! y) = (if y = x then - 1 else getId (es ! y))" if "y < ?n" for y
    using that xn pn px
    by (auto simp add: es2_def es1_def n len1 nth_list_update setNextInChain_def setId_def)
  have pay: "payload (es2 ! y) = payload (es ! y)" for y
    using xn pn by (cases "y = x"; cases "y = p")
      (auto simp add: es2_def es1_def n len1 nth_list_update setNextInChain_def setId_def)
  have idsx: "getId (es2 ! y) = getId (es ! y)" if "y \<noteq> x" for y
    using that pn by (cases "y = p") (auto simp add: es2_def es1_def n setNextInChain_def setId_def nth_list_update)
  text \<open>what \<open>erase\<close> returns\<close>
  have w: "walkBucket hs ident = Inr (int x, if pre = [] then - 1 else int (last pre))"
    using inv l idx by (rule walkBucket_found)
  have er: "erase ident hs = (Inr True, hs')"
    unfolding erase_def w
    by (simp add: hs'_def ht'_def es2_def es1_def Let_def nxt_def es_def ht_def F_def b_def p_def)
  text \<open>the chains of the new set\<close>
  have keep: "path es2 i ys = path es i ys" if "x \<notin> set ys" "pre \<noteq> [] \<longrightarrow> p \<notin> set ys" "set ys \<subseteq> {0..<?n}" for i ys
  proof (rule path_cong)
    show "length es2 = length es" by (simp add: len2 n)
    show "\<forall>y\<in>set ys. getNextInChain (es2 ! y) = getNextInChain (es ! y)"
    proof
      fix y assume y: "y \<in> set ys"
      then have "y < ?n" using that(3) by auto
      moreover have "y \<noteq> x" "pre \<noteq> [] \<longrightarrow> y \<noteq> p" using y that(1,2) by auto
      ultimately show "getNextInChain (es2 ! y) = getNextInChain (es ! y)"
        using lnk[of y] by auto
    qed
  qed
  have keepseg: "seg es2 i ys j = seg es i ys j" if "x \<notin> set ys" "pre \<noteq> [] \<longrightarrow> p \<notin> set ys" "set ys \<subseteq> {0..<?n}" for i ys j
  proof (rule seg_cong)
    show "length es2 = length es" by (simp add: len2 n)
    show "\<forall>y\<in>set ys. getNextInChain (es2 ! y) = getNextInChain (es ! y)"
    proof
      fix y assume y: "y \<in> set ys"
      then have "y < ?n" using that(3) by auto
      moreover have "y \<noteq> x" "pre \<noteq> [] \<longrightarrow> y \<noteq> p" using y that(1,2) by auto
      ultimately show "getNextInChain (es2 ! y) = getNextInChain (es ! y)"
        using lnk[of y] by auto
    qed
  qed
  have pfree: "path es2 (int x) (x # fl)"
  proof -
    have "path es F fl" using invD_free[OF inv] by (simp add: es_def F_def)
    then have "path es2 F fl"
      using keep[of fl F] xfl pfl inv_fl_bound[OF inv] by auto
    then show ?thesis using xn lnk[OF xn] by (simp add: len2)
  qed
  have pb: "path es (ht ! b) (pre @ x # post)"
    using invD_chain[OF inv b] by (simp add: lb es_def ht_def)
  then obtain m where m: "seg es (ht ! b) pre m" "path es m (x # post)"
    unfolding path_append by blast
  then have mx: "m = int x" and ppost: "path es nxt post" by (simp_all add: nxt_def)
  have ppost2: "path es2 nxt post"
  proof -
    have "x \<notin> set post" using dist by simp
    moreover have "pre \<noteq> [] \<longrightarrow> p \<notin> set post" using dist pp by auto
    moreover have "set post \<subseteq> {0..<?n}" using bound by simp
    ultimately show ?thesis using keep[of post nxt] ppost by simp
  qed
  have pchainb: "path es2 (ht' ! b) (pre @ post)"
  proof (cases "pre = []")
    case True
    then show ?thesis using ppost2 b sz by (simp add: ht'_def)
  next
    case False
    then obtain pre' where pre: "pre = pre' @ [p]"
      by (metis append_butlast_last_id p_def)
    from m(1) have s: "seg es (ht ! b) pre' (int p)" and lp: "getNextInChain (es ! p) = m"
      by (simp_all add: pre seg_snoc)
    have "x \<notin> set pre'" using dist by (simp add: pre)
    moreover have "p \<notin> set pre'" using dist by (simp add: pre)
    moreover have "set pre' \<subseteq> {0..<?n}" using bound by (simp add: pre)
    ultimately have "seg es2 (ht ! b) pre' (int p)" using keepseg[of pre' "ht ! b" "int p"] s by simp
    moreover have "getNextInChain (es2 ! p) = nxt" using lnk[OF pn[OF False]] px[OF False] False by simp
    ultimately have "seg es2 (ht ! b) pre nxt"
      using pn[OF False] by (simp add: pre seg_snoc len2)
    then show ?thesis using ppost2 False by (auto simp add: path_append ht'_def)
  qed
  have pchain: "path es2 (ht' ! b') (cls' b')" if "b' < 2 * ?n" for b'
  proof (cases "b' = b")
    case True
    then show ?thesis using pchainb by (simp add: cls'_def)
  next
    case False
    have "ht' ! b' = ht ! b'" using False by (simp add: ht'_def)
    moreover have "path es (ht ! b') (cls b')"
      using invD_chain[OF inv that] by (simp add: es_def ht_def)
    ultimately show ?thesis
      using keep[of "cls b'" "ht ! b'"] other[OF that False] inv_chain_bound[OF inv that] False
      by (simp add: cls'_def)
  qed
  have xcls': "x \<notin> set (cls' b')" if "b' < 2 * ?n" for b'
    using other(1)[OF that] dist by (cases "b' = b") (auto simp add: cls'_def)
  have sub: "set (cls' b') \<subseteq> set (cls b')" for b'
    by (auto simp add: cls'_def lb)
  have "hs_inv hs' (x # fl) cls'"
    unfolding hs_inv_def
  proof (intro conjI allI impI ballI)
    show "0 < length (entries hs')" "2 * length (entries hs') \<le> 2 ^ 32"
      "length (hashTable hs') = 2 * length (entries hs')"
      using sz by (simp_all add: hs'_def len2 ht'_def)
    show "path (entries hs') (freeHead hs') (x # fl)"
      using pfree by (simp add: hs'_def)
    show "path (entries hs') (hashTable hs' ! b') (cls' b')" if "b' < 2 * length (entries hs')" for b'
      using pchain[of b'] that by (simp add: hs'_def len2)
    show "distinct (x # fl)" using xfl invD_dfl[OF inv] by simp
    show "getId (entries hs' ! i) = - 1" if "i \<in> set (x # fl)" for i
    proof (cases "i = x")
      case True
      then show ?thesis using ids[OF xn] by (simp add: hs'_def)
    next
      case False
      with that have "i \<in> set fl" by simp
      then show ?thesis using invD_flid[OF inv, of i] idsx[OF False] by (simp add: hs'_def es_def)
    qed
    show "getId (entries hs' ! i) \<noteq> - 1"
      if "b' < 2 * length (entries hs')" "i \<in> set (cls' b')" for b' i
    proof -
      have b': "b' < 2 * ?n" using that(1) by (simp add: hs'_def len2)
      have "i \<noteq> x" using xcls'[OF b'] that(2) by auto
      moreover have "i \<in> set (cls b')" using sub that(2) by auto
      ultimately show ?thesis using invD_cid[OF inv b', of i] idsx[of i] by (simp add: hs'_def es_def)
    qed
    show "bucketOf (length (entries hs')) (getId (entries hs' ! i)) = b'"
      if "b' < 2 * length (entries hs')" "i \<in> set (cls' b')" for b' i
    proof -
      have b': "b' < 2 * ?n" using that(1) by (simp add: hs'_def len2)
      have "i \<noteq> x" using xcls'[OF b'] that(2) by auto
      moreover have "i \<in> set (cls b')" using sub that(2) by auto
      ultimately show ?thesis using invD_cbucket[OF inv b', of i] idsx[of i]
        by (simp add: hs'_def es_def len2)
    qed
    show "distinct (map (\<lambda>i. getId (entries hs' ! i)) (cls' b'))" if "b' < 2 * length (entries hs')" for b'
    proof -
      have b': "b' < 2 * ?n" using that(1) by (simp add: hs'_def len2)
      have eq: "map (\<lambda>i. getId (entries hs' ! i)) (cls' b') = map (\<lambda>i. getId (es ! i)) (cls' b')"
      proof (rule map_cong[OF refl])
        fix i assume "i \<in> set (cls' b')"
        then have "i \<noteq> x" using xcls'[OF b'] by blast
        then show "getId (entries hs' ! i) = getId (es ! i)"
          using idsx[of i] by (simp add: hs'_def)
      qed
      have d: "distinct (map (\<lambda>i. getId (es ! i)) (cls b'))"
        using invD_cdist[OF inv b'] by (simp add: es_def)
      have "distinct (map (\<lambda>i. getId (es ! i)) (cls' b'))"
      proof (cases "b' = b")
        case True
        with d show ?thesis by (simp add: cls'_def lb)
      next
        case False
        with d show ?thesis by (simp add: cls'_def)
      qed
      then show ?thesis by (simp only: eq)
    qed
    show "i \<in> set (x # fl) \<or> (\<exists>b'<2 * length (entries hs'). i \<in> set (cls' b'))"
      if "i < length (entries hs')" for i
    proof (cases "i = x")
      case True
      then show ?thesis by simp
    next
      case False
      have "i < ?n" using that by (simp add: hs'_def len2)
      from invD_cover[OF inv this] show ?thesis
      proof
        assume "i \<in> set fl"
        then show ?thesis by simp
      next
        assume "\<exists>b'<2 * ?n. i \<in> set (cls b')"
        then obtain b' where b': "b' < 2 * ?n" "i \<in> set (cls b')" by blast
        then have "i \<in> set (cls' b')"
          using False by (cases "b' = b") (auto simp add: cls'_def lb)
        then show ?thesis using b'(1) by (auto simp add: hs'_def len2)
      qed
    qed
  qed
  moreover have "length (entries hs') = ?n" by (simp add: hs'_def len2)
  moreover have "\<forall>j. payload (entries hs' ! j) = payload (entries hs ! j)"
    using pay by (simp add: hs'_def es_def)
  moreover have "\<forall>j. j \<noteq> x \<longrightarrow> getId (entries hs' ! j) = getId (entries hs ! j)"
    using idsx by (simp add: hs'_def es_def)
  moreover have "getId (entries hs' ! x) = - 1"
    using ids[OF xn] by (simp add: hs'_def)
  moreover have "\<forall>j. j \<noteq> x \<longrightarrow>
                  getNextInChain (entries hs' ! j) = getNextInChain (entries hs ! j)
                  \<or> getNextInChain (entries hs ! j) = int x"
  proof (intro allI impI)
    fix j assume jx: "j \<noteq> x"
    show "getNextInChain (entries hs' ! j) = getNextInChain (entries hs ! j)
          \<or> getNextInChain (entries hs ! j) = int x"
    proof (cases "pre \<noteq> [] \<and> j = p")
      case True
      then obtain pre' where pre: "pre = pre' @ [p]"
        by (metis append_butlast_last_id p_def)
      from m(1) have "getNextInChain (es ! p) = m" by (simp add: pre seg_snoc)
      then show ?thesis using True mx by (simp add: es_def)
    next
      case False
      then have "es2 ! j = es ! j" using jx by (auto simp add: es2_def es1_def)
      then show ?thesis by (simp add: hs'_def es_def)
    qed
  qed
  ultimately show ?thesis using er unfolding cls'_def b_def by blast
qed

lemma erase_not_found:
  assumes inv: "hs_inv hs fl cls"
    and nf: "\<forall>y\<in>set (cls (bucketOf (length (entries hs)) ident)). getId (entries hs ! y) \<noteq> ident"
  shows "erase ident hs = (Inr False, hs)"
proof -
  from walkBucket_not_found[OF inv nf] obtain j where "j < 0"
    "walkBucket hs ident =
           Inr (j, if cls (bucketOf (length (entries hs)) ident) = [] then - 1
                   else int (last (cls (bucketOf (length (entries hs)) ident))))" by blast
  then show ?thesis by (simp add: erase_def)
qed

lemma linkNew_inv:
  fixes hs :: "'p HashedSet"
  assumes inv: "hs_inv hs (c # fl') cls"
    and nf: "\<forall>y\<in>set (cls (bucketOf (length (entries hs)) ident)). getId (entries hs ! y) \<noteq> ident"
    and ne: "ident \<noteq> - 1"
    and lst: "lst = (if cls (bucketOf (length (entries hs)) ident) = [] then - 1
                    else int (last (cls (bucketOf (length (entries hs)) ident))))"
  shows "hs_inv (linkNew dflt ident (int c) lst hs) fl'
           (cls(bucketOf (length (entries hs)) ident := cls (bucketOf (length (entries hs)) ident) @ [c]))
         \<and> length (entries (linkNew dflt ident (int c) lst hs)) = length (entries hs)
         \<and> (\<forall>j. j \<noteq> c \<longrightarrow> payload (entries (linkNew dflt ident (int c) lst hs) ! j) = payload (entries hs ! j))
         \<and> (\<forall>j. j \<noteq> c \<longrightarrow> getId (entries (linkNew dflt ident (int c) lst hs) ! j) = getId (entries hs ! j))
         \<and> getId (entries (linkNew dflt ident (int c) lst hs) ! c) = ident
         \<and> payload (entries (linkNew dflt ident (int c) lst hs) ! c) = payload dflt"
proof -
  let ?n = "length (entries hs)"
  define b where "b = bucketOf ?n ident"
  define es where "es = entries hs"
  define ht where "ht = hashTable hs"
  define l where "l = cls b"
  define p where "p = last l"
  define es1 where "es1 = (if l = [] then es else es[p := setNextInChain (int c) (es ! p)])"
  define es2 where "es2 = es1[c := setNextInChain (- 1) (setId ident dflt)]"
  define ht' where "ht' = (if l = [] then ht[b := int c] else ht)"
  define hs' where "hs' = hs\<lparr>hashTable := ht', entries := es2,
                               freeHead := getNextInChain (es ! c), set_size := set_size hs + 1\<rparr>"
  define cls' where "cls' = cls(b := l @ [c])"
  have n: "length es = ?n" by (simp add: es_def)
  have sz: "0 < ?n" "2 * ?n \<le> 2 ^ 32" "length ht = 2 * ?n"
    using invD_size[OF inv] by (simp_all add: ht_def)
  have b: "b < 2 * ?n" unfolding b_def using inv by (rule inv_bucket)
  have lstl: "lst = (if l = [] then - 1 else int p)" using lst by (simp add: l_def b_def p_def)
  have eq: "linkNew dflt ident (int c) lst hs = hs'"
    by (simp add: linkNew_def hs'_def ht'_def es2_def es1_def Let_def es_def ht_def b_def lstl)
  have cn: "c < ?n" using inv_fl_bound[OF inv] by simp
  have dfl: "distinct (c # fl')" using inv by (rule invD_dfl)
  have pl: "p \<in> set l" if "l \<noteq> []" using that by (simp add: p_def)
  have lbound: "set l \<subseteq> {0..<?n}" using inv_chain_bound[OF inv b] by (simp add: l_def)
  have pn: "p < ?n" if "l \<noteq> []" using pl[OF that] lbound by auto
  have cmem: "c \<notin> set (cls b')" if "b' < 2 * ?n" for b'
    using inv_free_not_member[OF inv _ that, of c] by simp
  have pc: "p \<noteq> c" if "l \<noteq> []" using pl[OF that] cmem[OF b] by (auto simp add: l_def)
  have pfl: "p \<notin> set fl'" if "l \<noteq> []"
    using inv_free_not_member[OF inv _ b, of p] pl[OF that] by (auto simp add: l_def)
  have pother: "l \<noteq> [] \<longrightarrow> p \<notin> set (cls b')" if "b' < 2 * ?n" "b' \<noteq> b" for b'
    using inv_chains_disjoint[OF inv that(1) b, of p] that(2) pl by (auto simp add: l_def)
  have dl: "distinct l" using inv_chain_distinct[OF inv b] by (simp add: l_def)
  have len1: "length es1 = ?n" by (simp add: es1_def n)
  have len2: "length es2 = ?n" by (simp add: es2_def len1)
  have lnk: "getNextInChain (es2 ! y) =
      (if y = c then - 1 else if l \<noteq> [] \<and> y = p then int c else getNextInChain (es ! y))" if "y < ?n" for y
    using that cn pn pc
    by (auto simp add: es2_def es1_def n len1 nth_list_update setNextInChain_def setId_def)
  have idc: "getId (es2 ! c) = ident" "payload (es2 ! c) = payload dflt"
    using cn by (simp_all add: es2_def len1 setNextInChain_def setId_def)
  have idsx: "getId (es2 ! y) = getId (es ! y)" "payload (es2 ! y) = payload (es ! y)" if "y \<noteq> c" for y
    using that pn by (cases "y = p"; auto simp add: es2_def es1_def n setNextInChain_def setId_def nth_list_update)+
  have keep: "path es2 i ys = path es i ys" if "c \<notin> set ys" "l \<noteq> [] \<longrightarrow> p \<notin> set ys" "set ys \<subseteq> {0..<?n}" for i ys
  proof (rule path_cong)
    show "length es2 = length es" by (simp add: len2 n)
    show "\<forall>y\<in>set ys. getNextInChain (es2 ! y) = getNextInChain (es ! y)"
    proof
      fix y assume y: "y \<in> set ys"
      then have "y < ?n" using that(3) by auto
      moreover have "y \<noteq> c" "l \<noteq> [] \<longrightarrow> y \<noteq> p" using y that(1,2) by auto
      ultimately show "getNextInChain (es2 ! y) = getNextInChain (es ! y)"
        using lnk[of y] by auto
    qed
  qed
  have keepseg: "seg es2 i ys j = seg es i ys j" if "c \<notin> set ys" "l \<noteq> [] \<longrightarrow> p \<notin> set ys" "set ys \<subseteq> {0..<?n}" for i ys j
  proof (rule seg_cong)
    show "length es2 = length es" by (simp add: len2 n)
    show "\<forall>y\<in>set ys. getNextInChain (es2 ! y) = getNextInChain (es ! y)"
    proof
      fix y assume y: "y \<in> set ys"
      then have "y < ?n" using that(3) by auto
      moreover have "y \<noteq> c" "l \<noteq> [] \<longrightarrow> y \<noteq> p" using y that(1,2) by auto
      ultimately show "getNextInChain (es2 ! y) = getNextInChain (es ! y)"
        using lnk[of y] by auto
    qed
  qed
  have pfree: "path es2 (getNextInChain (es ! c)) fl'"
  proof -
    have "path es (int c) (c # fl')" using invD_free[OF inv] by (simp add: es_def)
    then have "path es (getNextInChain (es ! c)) fl'" by simp
    moreover have "c \<notin> set fl'" using dfl by simp
    moreover have "set fl' \<subseteq> {0..<?n}" using inv_fl_bound[OF inv] by simp
    ultimately show ?thesis using keep[of fl' "getNextInChain (es ! c)"] pfl by auto
  qed
  have pb: "path es (ht ! b) l"
    using invD_chain[OF inv b] by (simp add: l_def es_def ht_def)
  have pchainb: "path es2 (ht' ! b) (l @ [c])"
  proof (cases "l = []")
    case True
    then show ?thesis using cn lnk[OF cn] b sz by (simp add: ht'_def len2)
  next
    case False
    then obtain l' where l': "l = l' @ [p]"
      by (metis append_butlast_last_id p_def)
    from pb obtain m where m: "seg es (ht ! b) l' m" "path es m [p]"
      unfolding l' path_append by blast
    then have mp: "m = int p" by simp
    have "c \<notin> set l'" using cmem[OF b] by (simp add: l_def[symmetric] l')
    moreover have "p \<notin> set l'" using dl by (simp add: l')
    moreover have "set l' \<subseteq> {0..<?n}" using lbound by (simp add: l')
    ultimately have "seg es2 (ht ! b) l' (int p)"
      using keepseg[of l' "ht ! b" "int p"] m(1) mp by simp
    moreover have "path es2 (int p) [p, c]"
      using pn[OF False] cn lnk[OF pn[OF False]] lnk[OF cn] pc[OF False] False by (simp add: len2)
    ultimately have "path es2 (ht ! b) (l' @ [p, c])"
      unfolding path_append by blast
    then show ?thesis using False by (simp add: l' ht'_def)
  qed
  have pchain: "path es2 (ht' ! b') (cls' b')" if "b' < 2 * ?n" for b'
  proof (cases "b' = b")
    case True
    then show ?thesis using pchainb by (simp add: cls'_def)
  next
    case False
    have "ht' ! b' = ht ! b'" using False by (simp add: ht'_def)
    moreover have "path es (ht ! b') (cls b')"
      using invD_chain[OF inv that] by (simp add: es_def ht_def)
    ultimately show ?thesis
      using keep[of "cls b'" "ht ! b'"] cmem[OF that] pother[OF that False] inv_chain_bound[OF inv that] False
      by (simp add: cls'_def)
  qed
  have mem': "i \<in> set (cls' b') \<longleftrightarrow> i \<in> set (cls b') \<or> (b' = b \<and> i = c)" for i b'
    by (auto simp add: cls'_def l_def)
  have "hs_inv hs' fl' cls'"
    unfolding hs_inv_def
  proof (intro conjI allI impI ballI)
    show "0 < length (entries hs')" "2 * length (entries hs') \<le> 2 ^ 32"
      "length (hashTable hs') = 2 * length (entries hs')"
      using sz by (simp_all add: hs'_def len2 ht'_def)
    show "path (entries hs') (freeHead hs') fl'"
      using pfree by (simp add: hs'_def)
    show "path (entries hs') (hashTable hs' ! b') (cls' b')" if "b' < 2 * length (entries hs')" for b'
      using pchain[of b'] that by (simp add: hs'_def len2)
    show "distinct fl'" using dfl by simp
    show "getId (entries hs' ! i) = - 1" if "i \<in> set fl'" for i
    proof -
      have "i \<noteq> c" using that dfl by auto
      then show ?thesis using invD_flid[OF inv, of i] that idsx(1)[of i] by (simp add: hs'_def es_def)
    qed
    show "getId (entries hs' ! i) \<noteq> - 1"
      if "b' < 2 * length (entries hs')" "i \<in> set (cls' b')" for b' i
    proof (cases "i = c")
      case True
      then show ?thesis using idc ne by (simp add: hs'_def)
    next
      case False
      have b': "b' < 2 * ?n" using that(1) by (simp add: hs'_def len2)
      have "i \<in> set (cls b')" using that(2) False by (simp add: mem')
      then show ?thesis using invD_cid[OF inv b', of i] idsx(1)[OF False] by (simp add: hs'_def es_def)
    qed
    show "bucketOf (length (entries hs')) (getId (entries hs' ! i)) = b'"
      if "b' < 2 * length (entries hs')" "i \<in> set (cls' b')" for b' i
    proof (cases "i = c")
      case True
      have b': "b' < 2 * ?n" using that(1) by (simp add: hs'_def len2)
      have "b' = b" using that(2) True cmem[OF b'] by (simp add: mem')
      then show ?thesis using idc True by (simp add: hs'_def len2 b_def)
    next
      case False
      have b': "b' < 2 * ?n" using that(1) by (simp add: hs'_def len2)
      have "i \<in> set (cls b')" using that(2) False by (simp add: mem')
      then show ?thesis using invD_cbucket[OF inv b', of i] idsx(1)[OF False]
        by (simp add: hs'_def es_def len2)
    qed
    show "distinct (map (\<lambda>i. getId (entries hs' ! i)) (cls' b'))" if "b' < 2 * length (entries hs')" for b'
    proof -
      have b': "b' < 2 * ?n" using that(1) by (simp add: hs'_def len2)
      have eq: "map (\<lambda>i. getId (es2 ! i)) (cls b') = map (\<lambda>i. getId (es ! i)) (cls b')"
      proof (rule map_cong[OF refl])
        fix i assume "i \<in> set (cls b')"
        then have "i \<noteq> c" using cmem[OF b'] by blast
        then show "getId (es2 ! i) = getId (es ! i)" by (rule idsx(1))
      qed
      have d: "distinct (map (\<lambda>i. getId (es ! i)) (cls b'))"
        using invD_cdist[OF inv b'] by (simp add: es_def)
      show ?thesis
      proof (cases "b' = b")
        case True
        have ni: "ident \<notin> set (map (\<lambda>i. getId (es ! i)) l)"
          using nf by (auto simp add: l_def b_def es_def)
        have eql: "map (\<lambda>i. getId (es2 ! i)) l = map (\<lambda>i. getId (es ! i)) l"
          using eq unfolding True l_def .
        have "map (\<lambda>i. getId (es2 ! i)) (l @ [c]) = map (\<lambda>i. getId (es2 ! i)) l @ [getId (es2 ! c)]"
          by simp
        also have "\<dots> = map (\<lambda>i. getId (es ! i)) l @ [ident]"
          by (simp only: eql idc)
        finally have "map (\<lambda>i. getId (es2 ! i)) (l @ [c]) = map (\<lambda>i. getId (es ! i)) l @ [ident]" .
        moreover have "distinct (map (\<lambda>i. getId (es ! i)) l @ [ident])"
          using d ni unfolding True l_def[symmetric] by simp
        ultimately have "distinct (map (\<lambda>i. getId (es2 ! i)) (l @ [c]))" by (simp only:)
        then show ?thesis by (simp add: True cls'_def hs'_def)
      next
        case False
        have "distinct (map (\<lambda>i. getId (es2 ! i)) (cls b'))" using d by (simp only: eq)
        then show ?thesis using False by (simp add: cls'_def hs'_def)
      qed
    qed
    show "i \<in> set fl' \<or> (\<exists>b'<2 * length (entries hs'). i \<in> set (cls' b'))"
      if "i < length (entries hs')" for i
    proof (cases "i = c")
      case True
      then show ?thesis using b by (auto simp add: mem' hs'_def len2)
    next
      case False
      have "i < ?n" using that by (simp add: hs'_def len2)
      from invD_cover[OF inv this] False show ?thesis
        by (auto simp add: mem' hs'_def len2)
    qed
  qed
  moreover have "length (entries hs') = ?n" by (simp add: hs'_def len2)
  moreover have "\<forall>j. j \<noteq> c \<longrightarrow> payload (entries hs' ! j) = payload (entries hs ! j)"
    using idsx(2) by (simp add: hs'_def es_def)
  moreover have "\<forall>j. j \<noteq> c \<longrightarrow> getId (entries hs' ! j) = getId (entries hs ! j)"
    using idsx(1) by (simp add: hs'_def es_def)
  moreover have "getId (entries hs' ! c) = ident" "payload (entries hs' ! c) = payload dflt"
    using idc by (simp_all add: hs'_def)
  ultimately show ?thesis unfolding eq cls'_def l_def b_def by blast
qed

subsection \<open>Reachable states\<close>

lemma free_empty_iff: "hs_inv hs fl cls \<Longrightarrow> (freeHead hs < 0) = (fl = [])"
  using invD_free[of hs fl cls] by (cases fl) auto

lemma free_head: "hs_inv hs (c # fl') cls \<Longrightarrow> freeHead hs = int c \<and> c < length (entries hs)"
  using invD_free[of hs "c # fl'" cls] by simp

text \<open>The three modifying operations keep the invariant and never fail on it.\<close>

lemma insert_entry_ok:
  assumes ok: "hs_ok hs" and ne: "ident \<noteq> - 1"
  shows "\<exists>r hs'. insert_entry dflt ident hs = (Inr r, hs') \<and> hs_ok hs'"
proof -
  from ok obtain fl cls where inv: "hs_inv hs fl cls" unfolding hs_ok_iff by blast
  let ?b = "bucketOf (length (entries hs)) ident"
  show ?thesis
  proof (cases fl)
    case Nil
    then have "freeHead hs < 0" using free_empty_iff[OF inv] by simp
    then show ?thesis using ok by (auto simp add: insert_entry_def)
  next
    case (Cons c fl')
    then have fh: "\<not> freeHead hs < 0" "freeHead hs = int c" "c < length (entries hs)"
      using free_empty_iff[OF inv] free_head[of hs c fl' cls] inv by simp_all
    show ?thesis
    proof (cases "\<exists>y\<in>set (cls ?b). getId (entries hs ! y) = ident")
      case True
      from split_first_id[OF True] obtain pre x post where
        l: "cls ?b = pre @ x # post" and idx: "getId (entries hs ! x) = ident" by blast
      show ?thesis
        using ok fh by (auto simp add: insert_entry_def walkBucket_found[OF inv l idx])
    next
      case False
      then have nf: "\<forall>y\<in>set (cls ?b). getId (entries hs ! y) \<noteq> ident" by blast
      from walkBucket_not_found[OF inv nf] obtain j where j: "j < 0"
        "walkBucket hs ident = Inr (j, if cls ?b = [] then - 1 else int (last (cls ?b)))" by blast
      have "hs_inv (linkNew dflt ident (int c) (if cls ?b = [] then - 1 else int (last (cls ?b))) hs) fl'
              (cls(?b := cls ?b @ [c]))"
        using linkNew_inv[OF inv[unfolded Cons] nf ne refl] by blast
      then have "hs_ok (linkNew dflt ident (int c) (if cls ?b = [] then - 1 else int (last (cls ?b))) hs)"
        unfolding hs_ok_iff by blast
      then show ?thesis
        using fh j by (auto simp add: insert_entry_def)
    qed
  qed
qed

lemma findOrInsert_ok:
  assumes ok: "hs_ok hs" and ne: "ident \<noteq> - 1"
  shows "\<exists>r hs'. findOrInsert dflt ident hs = (Inr r, hs') \<and> hs_ok hs'"
proof -
  from ok obtain fl cls where inv: "hs_inv hs fl cls" unfolding hs_ok_iff by blast
  let ?b = "bucketOf (length (entries hs)) ident"
  show ?thesis
  proof (cases "\<exists>y\<in>set (cls ?b). getId (entries hs ! y) = ident")
    case True
    from split_first_id[OF True] obtain pre x post where
      l: "cls ?b = pre @ x # post" and idx: "getId (entries hs ! x) = ident" by blast
    show ?thesis
      using ok by (auto simp add: findOrInsert_def walkBucket_found[OF inv l idx])
  next
    case False
    then have nf: "\<forall>y\<in>set (cls ?b). getId (entries hs ! y) \<noteq> ident" by blast
    from walkBucket_not_found[OF inv nf] obtain j where j: "j < 0"
      "walkBucket hs ident = Inr (j, if cls ?b = [] then - 1 else int (last (cls ?b)))" by blast
    show ?thesis
    proof (cases fl)
      case Nil
      then have "freeHead hs < 0" using free_empty_iff[OF inv] by simp
      then show ?thesis using ok j by (auto simp add: findOrInsert_def)
    next
      case (Cons c fl')
      then have fh: "\<not> freeHead hs < 0" "freeHead hs = int c" "c < length (entries hs)"
        using free_empty_iff[OF inv] free_head[of hs c fl' cls] inv by simp_all
      have "hs_inv (linkNew dflt ident (int c) (if cls ?b = [] then - 1 else int (last (cls ?b))) hs) fl'
              (cls(?b := cls ?b @ [c]))"
        using linkNew_inv[OF inv[unfolded Cons] nf ne refl] by blast
      then have "hs_ok (linkNew dflt ident (int c) (if cls ?b = [] then - 1 else int (last (cls ?b))) hs)"
        unfolding hs_ok_iff by blast
      then show ?thesis
        using fh j by (auto simp add: findOrInsert_def)
    qed
  qed
qed

lemma erase_ok:
  assumes ok: "hs_ok hs"
  shows "\<exists>r hs'. erase ident hs = (Inr r, hs') \<and> hs_ok hs'"
proof -
  from ok obtain fl cls where inv: "hs_inv hs fl cls" unfolding hs_ok_iff by blast
  let ?b = "bucketOf (length (entries hs)) ident"
  show ?thesis
  proof (cases "\<exists>y\<in>set (cls ?b). getId (entries hs ! y) = ident")
    case True
    from split_first_id[OF True] obtain pre x post where
      l: "cls ?b = pre @ x # post" and idx: "getId (entries hs ! x) = ident" by blast
    from erase_found[OF inv l idx] show ?thesis unfolding hs_ok_iff by blast
  next
    case False
    then have nf: "\<forall>y\<in>set (cls ?b). getId (entries hs ! y) \<noteq> ident" by blast
    from erase_not_found[OF inv nf] ok show ?thesis by auto
  qed
qed

lemma updPayload_proj:
  "getId (entries (updPayload i f hs) ! j) = getId (entries hs ! j)"
  "getNextInChain (entries (updPayload i f hs) ! j) = getNextInChain (entries hs ! j)"
  "length (entries (updPayload i f hs)) = length (entries hs)"
  "hashTable (updPayload i f hs) = hashTable hs"
  "freeHead (updPayload i f hs) = freeHead hs"
proof -
  show "getId (entries (updPayload i f hs) ! j) = getId (entries hs ! j)"
    by (cases "j = i"; cases "i < length (entries hs)") (simp_all add: updPayload_def list_update_beyond)
  show "getNextInChain (entries (updPayload i f hs) ! j) = getNextInChain (entries hs ! j)"
    by (cases "j = i"; cases "i < length (entries hs)") (simp_all add: updPayload_def list_update_beyond)
qed (simp_all add: updPayload_def)

lemma updPayload_path:
  "path (entries (updPayload i f hs)) k ys = path (entries hs) k ys"
  by (rule path_cong) (simp_all add: updPayload_proj)

lemma updPayload_inv: "hs_inv hs fl cls \<Longrightarrow> hs_inv (updPayload i f hs) fl cls"
  unfolding hs_inv_def updPayload_proj updPayload_path .

lemma updPayload_ok: "hs_ok hs \<Longrightarrow> hs_ok (updPayload i f hs)"
  unfolding hs_ok_iff using updPayload_inv by blast

lemma path_new:
  assumes "i \<le> n" "length es = n"
    and "\<forall>j<n. getNextInChain (es ! j) = (if Suc j < n then int (Suc j) else - 1)"
  shows "path es (if i < n then int i else - 1) [i..<n]"
  using assms
proof (induction "n - i" arbitrary: i)
  case 0
  then show ?case by simp
next
  case (Suc k)
  then have i: "i < n" by simp
  have "k = n - Suc i" using Suc.hyps(2) by simp
  from Suc.hyps(1)[OF this _ Suc.prems(2,3)] i
  have "path es (if Suc i < n then int (Suc i) else - 1) [Suc i..<n]" by simp
  then show ?case using i Suc.prems(2,3) by (simp add: upt_conv_Cons)
qed

lemma HashedSet_new_inv:
  assumes "0 < n" "2 * n \<le> 2 ^ 32" "getId dflt = - 1"
  shows "hs_inv (HashedSet_new dflt n) [0..<n] (\<lambda>b. [])"
proof -
  let ?es = "entries (HashedSet_new dflt n)"
  have len: "length ?es = n" using assms(1) by (simp add: HashedSet_new_def)
  have ent: "?es ! j = (if j < n - 1 then setNextInChain (int (j + 1)) (setId (- 1) dflt)
                         else setNextInChain (- 1) dflt)" if "j < n" for j
    using that by (auto simp add: HashedSet_new_def nth_append)
  have lnk: "\<forall>j<n. getNextInChain (?es ! j) = (if Suc j < n then int (Suc j) else - 1)"
    using ent by (auto simp add: setNextInChain_def setId_def)
  have ids: "getId (?es ! j) = - 1" if "j < n" for j
    using ent[OF that] assms(3) by (simp add: setNextInChain_def setId_def)
  have "path ?es (if 0 < n then int 0 else - 1) [0..<n]"
    by (rule path_new) (simp_all add: len lnk)
  then have p: "path ?es 0 [0..<n]" using assms(1) by simp
  show ?thesis
    unfolding hs_inv_def
    using assms(1,2) p ids by (simp add: len) (simp add: HashedSet_new_def)
qed

text \<open>The calls keep the number of entries.\<close>

lemma length_linkNew [simp]: "length (entries (linkNew dflt ident c lst hs)) = length (entries hs)"
  by (simp add: linkNew_def Let_def)

lemma length_apply_op [simp]: "length (entries (apply_op dflt op hs)) = length (entries hs)"
  by (cases op)
     (auto simp add: insert_entry_def findOrInsert_def erase_def Let_def
        split: sum.splits prod.splits if_splits)

lemma apply_op_ok:
  assumes "hs_ok hs" and "- 1 \<notin> set (inserted_ids [op])"
  shows "hs_ok (apply_op dflt op hs)"
proof (cases op)
  case (Insert ident)
  with assms(2) have "ident \<noteq> - 1" by auto
  from insert_entry_ok[OF assms(1) this, of dflt] Insert show ?thesis by auto
next
  case (FindOrInsert ident)
  with assms(2) have "ident \<noteq> - 1" by auto
  from findOrInsert_ok[OF assms(1) this, of dflt] FindOrInsert show ?thesis by auto
next
  case (Erase ident)
  from erase_ok[OF assms(1), of ident] Erase show ?thesis by auto
qed

lemma inserted_ids_Cons:
  "- 1 \<notin> set (inserted_ids (op # ops)) =
     (- 1 \<notin> set (inserted_ids [op]) \<and> - 1 \<notin> set (inserted_ids ops))"
  by (cases op) auto

lemma fold_apply_op_ok:
  assumes "hs_ok hs" and "- 1 \<notin> set (inserted_ids ops)"
  shows "hs_ok (fold (apply_op dflt) ops hs)
         \<and> length (entries (fold (apply_op dflt) ops hs)) = length (entries hs)"
  using assms
proof (induction ops arbitrary: hs)
  case Nil
  then show ?case by simp
next
  case (Cons op ops)
  from Cons.prems(2) have a: "- 1 \<notin> set (inserted_ids [op])" "- 1 \<notin> set (inserted_ids ops)"
    unfolding inserted_ids_Cons[of op ops] by simp_all
  from Cons.IH[OF apply_op_ok[OF Cons.prems(1) a(1)] a(2), of dflt] show ?case by simp
qed

lemma length_HashedSet_new: "0 < n \<Longrightarrow> length (entries (HashedSet_new dflt n)) = n"
  by (simp add: HashedSet_new_def)

lemma run_ok:
  assumes "0 < n" "2 * n \<le> 2 ^ 32" "getId dflt = - 1" "- 1 \<notin> set (inserted_ids ops)"
  shows "hs_ok (run dflt n ops) \<and> length (entries (run dflt n ops)) = n"
proof -
  have "hs_ok (HashedSet_new dflt n)"
    unfolding hs_ok_iff using HashedSet_new_inv[OF assms(1-3)] by blast
  from fold_apply_op_ok[OF this assms(4), of dflt] show ?thesis
    by (simp add: run_def length_HashedSet_new[OF assms(1)])
qed

lemma ok_free_iff:
  assumes ok: "hs_ok hs" and i: "i < length (entries hs)"
  shows "isFree hs i = (getId (entries hs ! i) = - 1)" and "isFree hs i = (\<not> isMember hs i)"
proof -
  from ok obtain fl cls where inv: "hs_inv hs fl cls" unfolding hs_ok_iff by blast
  let ?n = "length (entries hs)"
  have sz: "length (hashTable hs) = 2 * ?n" using invD_size[OF inv] by simp
  have pf: "path (entries hs) (freeHead hs) fl" using inv by (rule invD_free)
  have fl: "freeList hs = Some fl"
    unfolding freeList_def using pf
    by (rule path_chain) (intro distinct_bound_length invD_dfl[OF inv] path_bound[OF pf])
  have bc: "bucketChain hs b = Some (cls b)" if "b < 2 * ?n" for b
    unfolding bucketChain_def using invD_chain[OF inv that]
    by (rule path_chain) (rule inv_chain_length[OF inv that])
  have fr: "isFree hs i = (i \<in> set fl)" by (simp add: isFree_def fl)
  have mem: "isMember hs i = (\<exists>b<2 * ?n. i \<in> set (cls b))"
    unfolding isMember_def list_ex_iff sz using bc by (auto simp add: Bex_def)
  show "isFree hs i = (getId (entries hs ! i) = - 1)"
    using invD_flid[OF inv, of i] invD_cover[OF inv i] invD_cid[OF inv, of _ i]
    unfolding fr by blast
  show "isFree hs i = (\<not> isMember hs i)"
    using invD_cover[OF inv i] inv_free_not_member[OF inv, of i]
    unfolding fr mem by blast
qed

text \<open>For a set that is given entry by entry, the bounds are checked apart from the chains.\<close>

lemma hs_ok_small:
  "length (entries hs) = n \<Longrightarrow> 0 < n \<Longrightarrow> 2 * n \<le> 2 ^ 32 \<Longrightarrow> chains_ok hs \<Longrightarrow> hs_ok hs"
  by (simp add: hs_ok_def)

text \<open>
  Claim C7, as the specification states it, for any sequence of calls and right after
  the constructor. \<^verbatim>\<open>insert\<close> accepts the identifier \<open>- 1\<close>: the entry it takes off the free
  list is then a member of the set, not free, with the identifier \<open>- 1\<close>. And the
  constructor resets the identifier of every entry but the last, which keeps the one its
  default constructor gives it: for an entry type that gives 0, the last entry is free
  with the identifier 0.
\<close>

theorem free_iff_id_fails:
  "getId (entries (run dfltVisit 4 [Insert (- 1)]) ! 0) = - 1
   \<and> \<not> isFree (run dfltVisit 4 [Insert (- 1)]) 0
   \<and> isMember (run dfltVisit 4 [Insert (- 1)]) 0
   \<and> isFree (HashedSet_new dfltZero 4) 3
   \<and> getId (entries (HashedSet_new dfltZero 4) ! 3) = 0"
  by code_simp

text \<open>
  Claim C7, amended. For an entry type whose default constructor sets the identifier to
  \<open>- 1\<close>, in the state after any sequence of \<^verbatim>\<open>insert\<close>, \<^verbatim>\<open>findOrInsert\<close> and \<^verbatim>\<open>erase\<close> on a
  freshly constructed set, in which \<open>- 1\<close> is not inserted, an entry is on the free list
  if and only if its identifier is \<open>- 1\<close>, and if and only if it is on no chain of the hash
  table. The empty sequence is the state right after the constructor.
\<close>

theorem free_iff_id_minus_one:
  assumes "0 < n" and "2 * n \<le> 2 ^ 32" and "getId dflt = - 1"
    and "- 1 \<notin> set (inserted_ids ops)" and "i < n"
  shows "length (entries (run dflt n ops)) = n
     \<and> isFree (run dflt n ops) i = (getId (entries (run dflt n ops) ! i) = - 1)
     \<and> isFree (run dflt n ops) i = (\<not> isMember (run dflt n ops) i)"
proof -
  from run_ok[OF assms(1-4)] have ok: "hs_ok (run dflt n ops)"
    and len: "length (entries (run dflt n ops)) = n" by simp_all
  from ok_free_iff[OF ok, of i] assms(5) len show ?thesis by simp
qed

theorem free_iff_id_minus_one_witness:
  "isFree (run dfltVisit 4 [Insert 1, FindOrInsert 2, Erase 1]) 0
   \<and> getId (entries (run dfltVisit 4 [Insert 1, FindOrInsert 2, Erase 1]) ! 0) = - 1
   \<and> \<not> isMember (run dfltVisit 4 [Insert 1, FindOrInsert 2, Erase 1]) 0
   \<and> \<not> isFree (run dfltVisit 4 [Insert 1, FindOrInsert 2, Erase 1]) 1
   \<and> getId (entries (run dfltVisit 4 [Insert 1, FindOrInsert 2, Erase 1]) ! 1) = 2
   \<and> isMember (run dfltVisit 4 [Insert 1, FindOrInsert 2, Erase 1]) 1
   \<and> isFree (run dfltVisit 4 []) 3
   \<and> getId (entries (run dfltVisit 4 []) ! 3) = - 1"
proof -
  have d: "getId dfltVisit = - 1" by (simp add: dfltVisit_def)
  have ids: "- 1 \<notin> set (inserted_ids [Insert 1, FindOrInsert 2, Erase 1])"
    "- 1 \<notin> set (inserted_ids [])" by simp_all
  have id0: "getId (entries (run dfltVisit 4 [Insert 1, FindOrInsert 2, Erase 1]) ! 0) = - 1"
    by code_simp
  have id1: "getId (entries (run dfltVisit 4 [Insert 1, FindOrInsert 2, Erase 1]) ! 1) = 2"
    by code_simp
  have id3: "getId (entries (run dfltVisit 4 []) ! 3) = - 1" by code_simp
  from free_iff_id_minus_one[OF _ _ d ids(1), of 4 0]
       free_iff_id_minus_one[OF _ _ d ids(1), of 4 1]
       free_iff_id_minus_one[OF _ _ d ids(2), of 4 3] id0 id1 id3
  show ?thesis by auto
qed

section \<open>Checking for ownership\<close>

lemma swap_remove_take:
  assumes "i < length xs"
  shows "take i (butlast (if i < length xs - 1 then xs[i := xs ! (length xs - 1)] else xs)) = take i xs"
  using assms by (auto simp add: butlast_conv_take min_def)

lemma swap_remove_drop:
  assumes "i < length xs"
  shows "mset (drop i (butlast (if i < length xs - 1 then xs[i := xs ! (length xs - 1)] else xs)))
           = mset (drop (Suc i) xs)"
proof (cases "i < length xs - 1")
  case False
  with assms have "i = length xs - 1" by simp
  then show ?thesis using assms by (simp add: butlast_conv_take)
next
  case True
  let ?n = "length xs - 1"
  have xs: "xs = take ?n xs @ [xs ! ?n]"
    using assms by (metis Suc_diff_1 diff_less length_greater_0_conv less_nat_zero_code list.size(3) take_Suc_conv_app_nth take_all_iff order_refl zero_less_one)
  have "butlast (xs[i := xs ! ?n]) = (take ?n xs)[i := xs ! ?n]"
    by (simp add: butlast_conv_take take_update_swap)
  then have "drop i (butlast (xs[i := xs ! ?n])) = xs ! ?n # drop (Suc i) (take ?n xs)"
    using True by (simp add: drop_update_cancel Cons_nth_drop_Suc[symmetric])
  moreover have "drop (Suc i) xs = drop (Suc i) (take ?n xs) @ [xs ! ?n]"
    using True by (subst xs) simp
  ultimately show ?thesis using True by simp
qed


lemma checkLoop_spec:
  shows "(\<And>c s h. chunk_getVisitId (clear c s) h = chunk_getVisitId s h
                          \<and> chunk_isUsable (clear c s) h = chunk_isUsable s h) \<Longrightarrow>
     sz = length tw \<Longrightarrow> i \<le> sz \<Longrightarrow>
     (case checkLoop clear visit tr tw sm sz i of
        (tr', tw', sm') \<Rightarrow>
           mset tw' = mset (take i tw) + mset (filter (\<lambda>c. chunk_getVisitId sm c \<noteq> visit) (drop i tw))
         \<and> (\<exists>added. tr' = tr @ added
                \<and> mset added = mset (filter (\<lambda>c. chunk_getVisitId sm c = visit \<and> \<not> chunk_isUsable sm c) (drop i tw))
                \<and> sm' = fold clear added sm))"
proof (induction clear visit tr tw sm sz i rule: checkLoop.induct)
  case (1 clear visit tr tw sm sz i)
  note keeps = "1.prems"(1)
  note szl = "1.prems"(2)
  show ?case
  proof (cases "i < sz")
    case False
    with "1.prems"(2,3) show ?thesis
      by (subst checkLoop.simps) simp
  next
    case ilt: True
    let ?c = "tw ! i"
    have dr: "drop i tw = ?c # drop (Suc i) tw"
      using ilt szl by (simp add: Cons_nth_drop_Suc)
    show ?thesis
    proof (cases "chunk_getVisitId sm ?c \<noteq> visit")
      case True
      have st: "checkLoop clear visit tr tw sm sz i = checkLoop clear visit tr tw sm sz (i + 1)"
        using ilt True by (subst checkLoop.simps) simp
      have tk: "take (Suc i) tw = take i tw @ [?c]"
        using ilt szl by (simp add: take_Suc_conv_app_nth)
      from "1.IH"(1)[OF ilt refl True keeps szl] ilt
      show ?thesis
        unfolding st using True by (auto simp add: dr tk split: prod.splits)
    next
      case False
      then have own: "chunk_getVisitId sm ?c = visit" by simp
      define tr1 where "tr1 = (if \<not> chunk_isUsable sm ?c then tr @ [?c] else tr)"
      define sm1 where "sm1 = (if \<not> chunk_isUsable sm ?c then clear ?c sm else sm)"
      define tw1 where "tw1 = butlast (if i < sz - 1 then tw[i := tw ! (sz - 1)] else tw)"
      have st: "checkLoop clear visit tr tw sm sz i = checkLoop clear visit tr1 tw1 sm1 (sz - 1) i"
        using ilt own by (subst checkLoop.simps) (simp add: tr1_def sm1_def tw1_def Let_def)
      have len1: "sz - 1 = length tw1" using szl ilt by (simp add: tw1_def)
      have i1: "i \<le> sz - 1" using ilt by simp
      have P1: "chunk_getVisitId sm1 h = chunk_getVisitId sm h" for h
        by (simp add: sm1_def keeps)
      have P2: "chunk_isUsable sm1 h = chunk_isUsable sm h" for h
        by (simp add: sm1_def keeps)
      have tk1: "take i tw1 = take i tw"
        unfolding tw1_def szl using ilt szl by (intro swap_remove_take) simp
      have dr1: "mset (drop i tw1) = mset (drop (Suc i) tw)"
        unfolding tw1_def szl using ilt szl by (intro swap_remove_drop) simp
      have IH: "case checkLoop clear visit tr1 tw1 sm1 (sz - 1) i of
        (tr', tw', sm') \<Rightarrow>
           mset tw' = mset (take i tw1) + mset (filter (\<lambda>c. chunk_getVisitId sm1 c \<noteq> visit) (drop i tw1))
         \<and> (\<exists>added. tr' = tr1 @ added
                \<and> mset added = mset (filter (\<lambda>c. chunk_getVisitId sm1 c = visit \<and> \<not> chunk_isUsable sm1 c) (drop i tw1))
                \<and> sm' = fold clear added sm1)"
      proof -
        have nown: "\<not> chunk_getVisitId sm ?c \<noteq> visit" using own by simp
        have pr: "(tr1, sm1) = (if \<not> chunk_isUsable sm ?c then (tr @ [?c], clear ?c sm) else (tr, sm))"
          by (simp add: tr1_def sm1_def)
        have len1': "sz - 1 = length (butlast (if i < sz - 1 then tw[i := tw ! (sz - 1)] else tw))"
          using len1 by (simp add: tw1_def)
        show ?thesis
          using "1.IH"(2)[OF ilt refl nown refl pr refl refl keeps len1' i1]
          by (simp add: tw1_def)
      qed
      obtain tr' tw' sm' where res: "checkLoop clear visit tr1 tw1 sm1 (sz - 1) i = (tr', tw', sm')"
        by (cases "checkLoop clear visit tr1 tw1 sm1 (sz - 1) i")
      from IH[unfolded res] obtain added where
        a: "mset tw' = mset (take i tw1) + mset (filter (\<lambda>c. chunk_getVisitId sm1 c \<noteq> visit) (drop i tw1))"
        and b: "tr' = tr1 @ added"
        and c: "mset added = mset (filter (\<lambda>c. chunk_getVisitId sm1 c = visit \<and> \<not> chunk_isUsable sm1 c) (drop i tw1))"
        and d: "sm' = fold clear added sm1" by auto
      have a': "mset tw' = mset (take i tw) + mset (filter (\<lambda>c. chunk_getVisitId sm c \<noteq> visit) (drop i tw))"
        using a own by (simp add: P1 tk1 dr dr1)
      have c': "mset added = mset (filter (\<lambda>c. chunk_getVisitId sm c = visit \<and> \<not> chunk_isUsable sm c) (drop (Suc i) tw))"
        using c by (simp add: P1 P2 dr1)
      show ?thesis
      proof (cases "chunk_isUsable sm ?c")
        case True
        then have "tr' = tr @ added" "sm' = fold clear added sm"
          using b d by (simp_all add: tr1_def sm1_def)
        moreover have "mset added = mset (filter (\<lambda>c. chunk_getVisitId sm c = visit \<and> \<not> chunk_isUsable sm c) (drop i tw))"
          using c' True by (simp add: dr)
        ultimately show ?thesis unfolding st res using a' by auto
      next
        case False
        then have "tr' = tr @ (?c # added)" "sm' = fold clear (?c # added) sm"
          using b d by (simp_all add: tr1_def sm1_def)
        moreover have "mset (?c # added) = mset (filter (\<lambda>c. chunk_getVisitId sm c = visit \<and> \<not> chunk_isUsable sm c) (drop i tw))"
          using c' False own by (simp add: dr)
        ultimately show ?thesis unfolding st res using a' by blast
      qed
    qed
  qed
qed

lemma chunk_clear_keeps:
  "chunk_getVisitId (chunk_clear tr c s) h = chunk_getVisitId s h
   \<and> chunk_isUsable (chunk_clear tr c s) h = chunk_isUsable s h"
  by (cases "h = c"; cases "c < length (entries (chunks s))")
     (simp_all add: chunk_clear_def chunk_getVisitId_def chunk_isUsable_def updPayload_def Let_def
        list_update_beyond)

text \<open>
  Claim C6. \<^verbatim>\<open>checkForOwnership\<close> keeps in \<^verbatim>\<open>toWaitFor\<close>, up to their order, exactly the
  chunks that \<open>visit\<close> does not own; it appends to \<^verbatim>\<open>toRead\<close> exactly the removed chunks
  that are not usable, having called \<^verbatim>\<open>clear\<close> on each of them; and it returns whether
  \<^verbatim>\<open>toWaitFor\<close> is empty afterwards. \<^verbatim>\<open>clear\<close> is any operation that changes neither the owner
  nor the usable flag of a chunk.
\<close>

theorem checkForOwnership_contract:
  assumes "\<And>c s h. chunk_getVisitId (clear c s) h = chunk_getVisitId s h
                     \<and> chunk_isUsable (clear c s) h = chunk_isUsable s h"
  shows "case checkForOwnership clear visit (toRead, toWaitFor, sm) of
           (r, toRead', toWaitFor', sm') \<Rightarrow>
             mset toWaitFor' = mset (filter (\<lambda>c. chunk_getVisitId sm c \<noteq> visit) toWaitFor)
             \<and> (\<exists>added. toRead' = toRead @ added
                    \<and> mset added =
                        mset (filter (\<lambda>c. chunk_getVisitId sm c = visit \<and> \<not> chunk_isUsable sm c)
                                toWaitFor)
                    \<and> sm' = fold clear added sm)
             \<and> r = (toWaitFor' = [])"
  using checkLoop_spec[where clear=clear and sz="length toWaitFor" and tw=toWaitFor and i=0
          and visit=visit and tr=toRead and sm=sm, OF assms refl]
  by (auto simp add: checkForOwnership_def split: prod.splits)

theorem checkForOwnership_contract_witness:
  "checkForOwnership (chunk_clear tr0) 2 ([], [0, 1], data cmWait)
     = (False, [0], [1], chunk_clear tr0 0 (data cmWait))"
proof -
  have v: "chunk_getVisitId (data cmWait) 0 = 2" "chunk_getVisitId (data cmWait) (Suc 0) = 3"
    "chunk_isUsable (data cmWait) 0 = False"
    by code_simp+
  show ?thesis
    using checkForOwnership_contract[where clear="chunk_clear tr0" and visit=2 and toRead="[]"
            and toWaitFor="[0, 1]" and sm="data cmWait", OF chunk_clear_keeps]
    by (auto simp add: v split: prod.splits)
qed

section \<open>The end of a visit\<close>

lemma doFind_None_erase:
  "doFind hs v = Inr None \<Longrightarrow> erase v hs = (Inr False, hs)"
  by (auto simp add: doFind_def erase_def split: sum.splits prod.splits if_splits)

lemma doFind_None_isValid: "doFind tracker v = Inr None \<Longrightarrow> isValid tracker v = Inr False"
  by (simp add: isValid_def)

lemma doFind_Some_isValid:
  "doFind tracker v = Inr (Some i) \<Longrightarrow>
   isValid tracker v = Inr (\<not> failed (payload (entries tracker ! i)))"
  by (simp add: isValid_def)

lemma doFind_member:
  assumes inv: "hs_inv hs fl cls" and f: "doFind hs v = Inr (Some i)"
  shows "i \<in> set (cls (bucketOf (length (entries hs)) v)) \<and> getId (entries hs ! i) = v"
proof (cases "\<exists>y\<in>set (cls (bucketOf (length (entries hs)) v)). getId (entries hs ! y) = v")
  case True
  then obtain y where y: "y \<in> set (cls (bucketOf (length (entries hs)) v))"
    "getId (entries hs ! y) = v" by blast
  from doFind_found[OF inv y] f have "y = i" by simp
  with y show ?thesis by simp
next
  case False
  then have "\<forall>y\<in>set (cls (bucketOf (length (entries hs)) v)). getId (entries hs ! y) \<noteq> v"
    by blast
  from doFind_not_found[OF inv this] f show ?thesis by simp
qed

lemma member_chain:
  assumes inv: "hs_inv hs fl cls" and i: "i < length (entries hs)"
    and id: "getId (entries hs ! i) \<noteq> - 1"
  shows "i \<in> set (cls (bucketOf (length (entries hs)) (getId (entries hs ! i))))"
proof -
  from invD_cover[OF inv i] invD_flid[OF inv, of i] id
  obtain b where b: "b < 2 * length (entries hs)" "i \<in> set (cls b)" by blast
  from invD_cbucket[OF inv b] b(2) show ?thesis by simp
qed

lemma doFind_index:
  assumes ok: "hs_ok hs" and i: "i < length (entries hs)" and id: "getId (entries hs ! i) \<noteq> - 1"
  shows "doFind hs (getId (entries hs ! i)) = Inr (Some i)"
proof -
  from ok obtain fl cls where inv: "hs_inv hs fl cls" unfolding hs_ok_iff by blast
  show ?thesis by (rule doFind_found[OF inv member_chain[OF inv i id] refl])
qed

text \<open>Erasing a member: it is gone, and only its identifier and the links have changed.\<close>

lemma erase_member:
  assumes ok: "hs_ok hs" and f: "doFind hs v = Inr (Some i)"
  shows "\<exists>hs'. erase v hs = (Inr True, hs') \<and> hs_ok hs' \<and> doFind hs' v = Inr None
           \<and> length (entries hs') = length (entries hs)
           \<and> (\<forall>j. payload (entries hs' ! j) = payload (entries hs ! j))
           \<and> (\<forall>j. j \<noteq> i \<longrightarrow> getId (entries hs' ! j) = getId (entries hs ! j))
           \<and> getId (entries hs' ! i) = - 1
           \<and> (\<forall>j. j \<noteq> i \<longrightarrow>
                  getNextInChain (entries hs' ! j) = getNextInChain (entries hs ! j)
                  \<or> getNextInChain (entries hs ! j) = int i)"
proof -
  from ok obtain fl cls where inv: "hs_inv hs fl cls" unfolding hs_ok_iff by blast
  let ?b = "bucketOf (length (entries hs)) v"
  have b: "?b < 2 * length (entries hs)" by (rule inv_bucket[OF inv])
  from doFind_member[OF inv f] have mem: "i \<in> set (cls ?b)" and idi: "getId (entries hs ! i) = v"
    by simp_all
  from split_list[OF mem] obtain pre post where l: "cls ?b = pre @ i # post" by blast
  from erase_found[OF inv l idi] obtain hs' where
    e: "erase v hs = (Inr True, hs')"
    and inv': "hs_inv hs' (i # fl) (cls(?b := pre @ post))"
    and len: "length (entries hs') = length (entries hs)"
    and pl: "\<forall>j. payload (entries hs' ! j) = payload (entries hs ! j)"
    and ids: "\<forall>j. j \<noteq> i \<longrightarrow> getId (entries hs' ! j) = getId (entries hs ! j)"
    and idx: "getId (entries hs' ! i) = - 1"
    and lk: "\<forall>j. j \<noteq> i \<longrightarrow>
               getNextInChain (entries hs' ! j) = getNextInChain (entries hs ! j)
               \<or> getNextInChain (entries hs ! j) = int i" by blast
  have d: "distinct (map (\<lambda>k. getId (entries hs ! k)) (pre @ i # post))"
    using invD_cdist[OF inv b] by (simp add: l)
  have ni: "i \<notin> set (pre @ post)" using inv_chain_distinct[OF inv b] by (simp add: l)
  have "\<forall>y\<in>set (pre @ post). getId (entries hs' ! y) \<noteq> v"
  proof
    fix y assume y: "y \<in> set (pre @ post)"
    with ni have "y \<noteq> i" by blast
    then have "getId (entries hs' ! y) = getId (entries hs ! y)" using ids by simp
    moreover have "getId (entries hs ! i) \<notin> (\<lambda>k. getId (entries hs ! k)) ` set (pre @ post)"
      using d by auto
    then have "getId (entries hs ! y) \<noteq> getId (entries hs ! i)"
      using y by (metis imageI)
    ultimately show "getId (entries hs' ! y) \<noteq> v" using idi by simp
  qed
  then have "\<forall>y\<in>set ((cls(?b := pre @ post)) (bucketOf (length (entries hs')) v)).
               getId (entries hs' ! y) \<noteq> v"
    by (simp add: len)
  from doFind_not_found[OF inv' this] have nf: "doFind hs' v = Inr None" .
  have "hs_ok hs'" unfolding hs_ok_iff using inv' by blast
  with e nf len pl ids idx lk show ?thesis by blast
qed

text \<open>
  Claim C3. On a well-formed tracker the lookup of the visit succeeds. If the tracker
  does not hold the visit, \<^verbatim>\<open>endVisit\<close> returns false and changes nothing. Otherwise the
  effective rollback is \<open>rb\<close> or the visit having failed; the visit is erased from the
  tracker; \<^verbatim>\<open>relinquishOwnership\<close> runs with the effective rollback on the tracker without
  the visit; \<^verbatim>\<open>notifyAll\<close> is called once if it reports a change and not at all if not; and
  the result is the negation of the effective rollback. For a visit that is not valid,
  the call with \<open>rollback = false\<close> is the call with \<open>rollback = true\<close>.
\<close>

theorem endVisit_contract:
  assumes "hs_ok (visits cm)"
  shows "(\<exists>r. doFind (visits cm) v = Inr r)
   \<and> (doFind (visits cm) v = Inr None \<longrightarrow> endVisit ops tr v rb cm = (Inr False, cm, []))
   \<and> (\<forall>i. doFind (visits cm) v = Inr (Some i) \<longrightarrow>
         (\<exists>vs. erase v (visits cm) = (Inr True, vs) \<and> doFind vs v = Inr None
            \<and> endVisit ops tr v rb cm =
                (let roll = (rb \<or> failed (payload (entries (visits cm) ! i)))
                 in case relinquishOwnership ops tr v roll vs (data cm) of
                      (Inl e, sm, evs) \<Rightarrow> (Inl e, cm\<lparr>visits := vs, data := sm\<rparr>, evs)
                    | (Inr change, sm, evs) \<Rightarrow>
                        (Inr (\<not> roll),
                         cm\<lparr>visits := vs, data := sm,
                            notifications := notifications cm + (if change then 1 else 0)\<rparr>,
                         evs))))
   \<and> (isValid (visits cm) v = Inr False \<longrightarrow>
        endVisit ops tr v False cm = endVisit ops tr v True cm)"
proof (intro conjI allI impI)
  show "\<exists>r. doFind (visits cm) v = Inr r" using assms by (rule doFind_total)
next
  assume "doFind (visits cm) v = Inr None"
  then show "endVisit ops tr v rb cm = (Inr False, cm, [])"
    by (simp add: endVisit_def doFind_None_isValid doFind_None_erase)
next
  fix i
  assume f: "doFind (visits cm) v = Inr (Some i)"
  from erase_member[OF assms f] obtain vs where
    e: "erase v (visits cm) = (Inr True, vs)" and nf: "doFind vs v = Inr None" by blast
  have "endVisit ops tr v rb cm =
          (let roll = (rb \<or> failed (payload (entries (visits cm) ! i)))
           in case relinquishOwnership ops tr v roll vs (data cm) of
                (Inl e, sm, evs) \<Rightarrow> (Inl e, cm\<lparr>visits := vs, data := sm\<rparr>, evs)
              | (Inr change, sm, evs) \<Rightarrow>
                  (Inr (\<not> roll),
                   cm\<lparr>visits := vs, data := sm,
                      notifications := notifications cm + (if change then 1 else 0)\<rparr>,
                   evs))"
    by (simp add: endVisit_def doFind_Some_isValid[OF f] e Let_def)
  with e nf show "\<exists>vs. erase v (visits cm) = (Inr True, vs) \<and> doFind vs v = Inr None
            \<and> endVisit ops tr v rb cm =
                (let roll = (rb \<or> failed (payload (entries (visits cm) ! i)))
                 in case relinquishOwnership ops tr v roll vs (data cm) of
                      (Inl e, sm, evs) \<Rightarrow> (Inl e, cm\<lparr>visits := vs, data := sm\<rparr>, evs)
                    | (Inr change, sm, evs) \<Rightarrow>
                        (Inr (\<not> roll),
                         cm\<lparr>visits := vs, data := sm,
                            notifications := notifications cm + (if change then 1 else 0)\<rparr>,
                         evs))"
    by blast
next
  assume "isValid (visits cm) v = Inr False"
  then show "endVisit ops tr v False cm = endVisit ops tr v True cm"
    by (simp add: endVisit_def)
qed

theorem endVisit_contract_witness:
  "hs_ok (visits cmQueue)
   \<and> endVisit ops0 tr0 9 False cmQueue = (Inr False, cmQueue, [])
   \<and> fst (endVisit ops0 tr0 1 False cmQueue) = Inr True
   \<and> notifications (fst (snd (endVisit ops0 tr0 1 False cmQueue))) = notifications cmQueue + 1
   \<and> doFind (visits (fst (snd (endVisit ops0 tr0 1 False cmQueue)))) 1 = Inr None"
proof -
  have ok: "hs_ok (visits cmQueue)"
    by (rule hs_ok_small[where n = 4]) (code_simp, simp, simp, code_simp)
  have f9: "doFind (visits cmQueue) 9 = Inr None" by code_simp
  have f1: "doFind (visits cmQueue) 1 = Inr (Some 0)" by code_simp
  have nf: "failed (payload (entries (visits cmQueue) ! 0)) = False" by code_simp
  have r: "fst (relinquishOwnership ops0 tr0 1 False (snd (erase 1 (visits cmQueue))) (data cmQueue))
             = Inr True"
    by code_simp
  note c = endVisit_contract[OF ok, of 9 ops0 tr0 False] endVisit_contract[OF ok, of 1 ops0 tr0 False]
  have a: "endVisit ops0 tr0 9 False cmQueue = (Inr False, cmQueue, [])"
    using c(1) f9 by simp
  from c(2) f1 obtain vs where
    e: "erase 1 (visits cmQueue) = (Inr True, vs)" and g: "doFind vs 1 = Inr None"
    and ev: "endVisit ops0 tr0 1 False cmQueue =
       (let roll = (False \<or> failed (payload (entries (visits cmQueue) ! 0)))
        in case relinquishOwnership ops0 tr0 1 roll vs (data cmQueue) of
             (Inl e, sm, evs) \<Rightarrow> (Inl e, cmQueue\<lparr>visits := vs, data := sm\<rparr>, evs)
           | (Inr change, sm, evs) \<Rightarrow>
               (Inr (\<not> roll),
                cmQueue\<lparr>visits := vs, data := sm,
                   notifications := notifications cmQueue + (if change then 1 else 0)\<rparr>,
                evs))"
    by auto
  from r e obtain sm evs where
    "relinquishOwnership ops0 tr0 1 False vs (data cmQueue) = (Inr True, sm, evs)"
    by (cases "relinquishOwnership ops0 tr0 1 False vs (data cmQueue)") auto
  with ev nf g have "fst (endVisit ops0 tr0 1 False cmQueue) = Inr True"
    "notifications (fst (snd (endVisit ops0 tr0 1 False cmQueue))) = notifications cmQueue + 1"
    "doFind (visits (fst (snd (endVisit ops0 tr0 1 False cmQueue)))) 1 = Inr None"
    by simp_all
  with ok a show ?thesis by simp
qed

section \<open>The start of a visit\<close>

text \<open>
  Claim C4, at a state that the calls of the manager reach. Visit 4 is valid, the two
  chunk identifiers are distinct, and there are three free descriptors, so the checks of
  \<^verbatim>\<open>startVisit\<close> pass. The descriptor for chunk 100 is created and given to visit 4; then
  the queue of chunk 200, which holds the identifiers of two visits that have ended, is
  full and \<^verbatim>\<open>enqueue\<close> throws. The descriptor stays and \<^verbatim>\<open>toRead\<close> holds its handle.
\<close>

theorem startVisit_throws_after_insert:
  "space (chunks (data cmStale)) = 3
   \<and> isValid (visits cmStale) 4 = Inr True
   \<and> getId (entries (chunks (data cmStale)) ! 1) = - 1
   \<and> fst (startVisit (dfltChunk 2) 4 [100, 200] cmStale) = Inl LengthError
   \<and> fst (snd (startVisit (dfltChunk 2) 4 [100, 200] cmStale)) = [1]
   \<and> getId (entries (chunks (data (snd (snd (snd
          (startVisit (dfltChunk 2) 4 [100, 200] cmStale)))))) ! 1) = 100
   \<and> visitId (payload (entries (chunks (data (snd (snd (snd
          (startVisit (dfltChunk 2) 4 [100, 200] cmStale)))))) ! 1)) = 4
   \<and> fst (createOrRegisterInterest (dfltChunk 2) 4 [100, 200] ([], [], data cmStale))
       = Inl LengthError"
  by code_simp

section \<open>Relinquishing ownership\<close>

subsection \<open>The order of the events\<close>

lemma owner_then_settle_append:
  "owner_then_settle rb xs \<Longrightarrow> owner_then_settle rb ys \<Longrightarrow> owner_then_settle rb (xs @ ys)"
  by (induction rb xs rule: owner_then_settle.induct) simp_all

lemma relinquishOne_events:
  assumes "owner_then_settle rb evs"
  shows "owner_then_settle rb
           (snd (snd (snd (relinquishOne ops tr visit rb tracker idx (sm, change, evs)))))"
  using assms
  by (auto simp add: relinquishOne_def Let_def owner_then_settle_append
      split: prod.splits sum.splits option.splits)

lemma relinquishScan_events:
  "owner_then_settle rb (snd (snd st)) \<Longrightarrow>
   owner_then_settle rb (snd (snd (snd (relinquishScan ops tr visit rb tracker is st))))"
proof (induction "is" arbitrary: st)
  case Nil
  then show ?case by simp
next
  case (Cons idx rest)
  obtain sm change evs where st: "st = (sm, change, evs)" by (cases st) auto
  obtain r st' where one: "relinquishOne ops tr visit rb tracker idx (sm, change, evs) = (r, st')"
    by (cases "relinquishOne ops tr visit rb tracker idx (sm, change, evs)") auto
  have o: "owner_then_settle rb (snd (snd st'))"
    using relinquishOne_events[of rb evs ops tr visit tracker idx sm change] Cons.prems
    by (simp add: st one)
  show ?case
  proof (cases r)
    case (Inl e)
    then show ?thesis using o by (simp add: st one)
  next
    case (Inr u)
    then show ?thesis using Cons.IH[OF o] by (simp add: st one)
  qed
qed

text \<open>
  In every run of \<^verbatim>\<open>relinquishOwnership\<close>, the assignment of the successor to \<^verbatim>\<open>_visitId\<close>
  is followed at once by the commit of the same descriptor, or with the rollback flag by
  its rollback.
\<close>

lemma relinquishOwnership_event_order:
  "owner_then_settle rb (snd (snd (relinquishOwnership ops tr visit rb tracker sm)))"
  using relinquishScan_events[of rb "(sm, False, [])" ops tr visit tracker
          "[0..<length (entries (chunks sm))]"]
  by (auto simp add: relinquishOwnership_def split: prod.splits sum.splits)

text \<open>
  Claim C1, at the end of visit 1, which owns the chunk of descriptor 0 that the visits
  2, 3 and 4 wait for, with \<open>rollback = false\<close>. The descriptor goes from visit 1 to
  visit 2, the first of those waiting. The source assigns the successor to \<^verbatim>\<open>_visitId\<close>
  inside the loop over the queue and calls \<^verbatim>\<open>commit\<close> after the loop: the owner is updated
  first and the commit follows, where the claim and the documentation of the function
  have the commit before ownership is relinquished.
\<close>

theorem owner_set_before_commit:
  "owned 1 (data cmQueue) 0
   \<and> waiting (snd (erase 1 (visits cmQueue))) (data cmQueue) 0 = [2, 3, 4]
   \<and> chunk_getVisitId (fst (snd (relinquishOwnership ops0 tr0 1 False
          (snd (erase 1 (visits cmQueue))) (data cmQueue)))) 0 = 2
   \<and> snd (snd (relinquishOwnership ops0 tr0 1 False (snd (erase 1 (visits cmQueue))) (data cmQueue)))
       = [OwnerSet 0 2, Committed 0]
   \<and> \<not> settled_first []
         (snd (snd (relinquishOwnership ops0 tr0 1 False (snd (erase 1 (visits cmQueue)))
                      (data cmQueue))))"
  by code_simp

subsection \<open>The queue\<close>

lemma and_pow2_minus_1: "(x::nat) AND (2 ^ m - 1) = x mod 2 ^ m"
  by (metis mask_eq_exp_minus_1 take_bit_eq_mask take_bit_eq_mod)

lemma fifo_ok_pow2: "fifo_ok q \<Longrightarrow> \<exists>m. length (buffer q) = 2 ^ m"
  by (auto simp add: fifo_ok_def list_ex_iff)

lemma fifo_okI:
  assumes "length (buffer q) = 2 ^ m" "fifo_size q \<le> length (buffer q)"
    "fifo_front q < length (buffer q)"
    "fifo_back q = (fifo_front q + fifo_size q) mod length (buffer q)"
  shows "fifo_ok q"
proof -
  have "m < Suc (2 ^ m)" by (rule less_SucI) (rule less_exp)
  then have "m < Suc (length (buffer q))" unfolding assms(1) .
  then have "list_ex (\<lambda>m. length (buffer q) = 2 ^ m) [0..<Suc (length (buffer q))]"
    unfolding list_ex_iff using assms(1) by (intro bexI[of _ m]) simp_all
  then show ?thesis using assms(2-4) unfolding fifo_ok_def by blast
qed

lemma fifo_wrap:
  assumes "fifo_ok q"
  shows "x AND (length (buffer q) - 1) = x mod length (buffer q)"
proof -
  from fifo_ok_pow2[OF assms] obtain m where "length (buffer q) = 2 ^ m" by blast
  then show ?thesis using and_pow2_minus_1[of x m] by simp
qed

lemma fifo_list_Nil: "fifo_size q = 0 \<Longrightarrow> fifo_list q = []"
  by (simp add: fifo_list_def)

lemma dequeue_spec:
  assumes ok: "fifo_ok q" and ne: "\<not> Fifo_empty q"
  shows "\<exists>q'. dequeue q = Inr (hd (fifo_list q), q') \<and> fifo_list q' = tl (fifo_list q)
           \<and> fifo_ok q' \<and> fifo_size q' = fifo_size q - 1 \<and> fifo_list q \<noteq> []"
proof -
  let ?n = "length (buffer q)"
  let ?q' = "q\<lparr>fifo_front := (fifo_front q + 1) AND (?n - 1), fifo_size := fifo_size q - 1\<rparr>"
  from ne have sz: "0 < fifo_size q" by (simp add: Fifo_empty_def)
  from ok have n: "0 < ?n" and fr: "fifo_front q < ?n" and szn: "fifo_size q \<le> ?n"
    and bk: "fifo_back q = (fifo_front q + fifo_size q) mod ?n"
    by (auto simp add: fifo_ok_def)
  have w: "(fifo_front q + 1) AND (?n - 1) = (fifo_front q + 1) mod ?n"
    by (rule fifo_wrap[OF ok])
  have up: "[0..<fifo_size q] = 0 # map Suc [0..<fifo_size q - 1]"
    using sz by (metis Suc_pred' map_Suc_upt upt_conv_Cons)
  have hd: "hd (fifo_list q) = buffer q ! fifo_front q"
    using fr by (simp add: fifo_list_def up)
  have d: "dequeue q = Inr (hd (fifo_list q), ?q')"
    using sz by (simp add: dequeue_def Let_def hd)
  have ix: "((fifo_front q + 1) mod ?n + k) mod ?n = (fifo_front q + Suc k) mod ?n" for k
    by (simp add: mod_add_left_eq)
  have w': "Suc (fifo_front q) AND (?n - Suc 0) = Suc (fifo_front q) mod ?n"
    using w by simp
  have ix': "(Suc (fifo_front q) mod ?n + k) mod ?n = Suc (fifo_front q + k) mod ?n" for k
    using ix[of k] by simp
  have tl: "fifo_list ?q' = tl (fifo_list q)"
    by (simp add: fifo_list_def up w' ix' del: upt_Suc)
  have "((fifo_front q + 1) mod ?n + (fifo_size q - 1)) mod ?n
          = ((fifo_front q + 1) + (fifo_size q - 1)) mod ?n"
    by (rule mod_add_left_eq)
  also have "(fifo_front q + 1) + (fifo_size q - 1) = fifo_front q + fifo_size q"
    using sz by simp
  finally have "(fifo_front q + fifo_size q) mod ?n
                  = ((fifo_front q + 1) mod ?n + (fifo_size q - 1)) mod ?n"
    by simp
  then have bk': "fifo_back q = (Suc (fifo_front q) mod ?n + (fifo_size q - Suc 0)) mod ?n"
    using bk by simp
  obtain m where m: "?n = 2 ^ m" using fifo_ok_pow2[OF ok] by blast
  have ok': "fifo_ok ?q'"
  proof (rule fifo_okI)
    show "length (buffer ?q') = 2 ^ m" using m by simp
    show "fifo_size ?q' \<le> length (buffer ?q')" using szn by simp
    show "fifo_front ?q' < length (buffer ?q')" using n by (simp add: w')
    show "fifo_back ?q' = (fifo_front ?q' + fifo_size ?q') mod length (buffer ?q')"
      using bk' by (simp add: w')
  qed
  have "fifo_list q \<noteq> []" using sz by (simp add: fifo_list_def)
  with d tl ok' show ?thesis by simp
qed

lemma enqueue_spec:
  assumes ok: "fifo_ok q" and nf: "\<not> Fifo_full q"
  shows "\<exists>q'. enqueue v q = Inr q' \<and> fifo_list q' = fifo_list q @ [v] \<and> fifo_ok q'"
proof -
  let ?n = "length (buffer q)"
  let ?q' = "q\<lparr>buffer := (buffer q)[fifo_back q := v],
               fifo_back := (fifo_back q + 1) AND (?n - 1), fifo_size := fifo_size q + 1\<rparr>"
  from ok have fr: "fifo_front q < ?n" and szn: "fifo_size q \<le> ?n"
    and bk: "fifo_back q = (fifo_front q + fifo_size q) mod ?n"
    by (auto simp add: fifo_ok_def)
  from nf szn have sz: "fifo_size q < ?n" by (simp add: Fifo_full_def)
  then have n: "0 < ?n" by auto
  have w: "(fifo_back q + 1) AND (?n - 1) = (fifo_back q + 1) mod ?n"
    by (rule fifo_wrap[OF ok])
  have e: "enqueue v q = Inr ?q'"
    using sz by (simp add: enqueue_def Let_def)
  have bl: "fifo_back q < ?n" using n by (simp add: bk)
  have other: "(fifo_front q + k) mod ?n \<noteq> fifo_back q" if "k < fifo_size q" for k
  proof
    assume "(fifo_front q + k) mod ?n = fifo_back q"
    then have "(fifo_front q + k) mod ?n = (fifo_front q + fifo_size q) mod ?n" by (simp add: bk)
    then have "?n dvd (fifo_front q + fifo_size q) - (fifo_front q + k)"
      using that by (subst mod_eq_dvd_iff_nat[symmetric]) simp_all
    then have "?n dvd fifo_size q - k" by simp
    then show False using that sz by (auto dest: dvd_imp_le)
  qed
  have other': "fifo_back q \<noteq> (fifo_front q + k) mod ?n" if "k < fifo_size q" for k
    using other[OF that] by simp
  have "fifo_list ?q' = fifo_list q @ [v]"
    using bl other' by (simp add: fifo_list_def bk[symmetric])
  moreover obtain m where m: "?n = 2 ^ m" using fifo_ok_pow2[OF ok] by blast
  have w': "Suc (fifo_back q) AND (?n - Suc 0) = Suc (fifo_back q) mod ?n"
    using w by simp
  have bk': "Suc (fifo_back q) mod ?n = (fifo_front q + Suc (fifo_size q)) mod ?n"
    by (simp add: bk mod_Suc_eq)
  have "fifo_ok ?q'"
  proof (rule fifo_okI)
    show "length (buffer ?q') = 2 ^ m" using m by simp
    show "fifo_size ?q' \<le> length (buffer ?q')" using sz by simp
    show "fifo_front ?q' < length (buffer ?q')" using fr by simp
    show "fifo_back ?q' = (fifo_front ?q' + fifo_size ?q') mod length (buffer ?q')"
      using bk' by (simp add: w')
  qed
  ultimately show ?thesis using e by simp
qed

text \<open>
  The loop that looks for a successor takes the identifiers from the front of the queue,
  drops those of visits that are not valid, and stops at the first valid one.
\<close>

lemma findSuccessor_spec:
  assumes tok: "hs_ok tracker" and ok: "fifo_ok q"
  shows "\<exists>q'. findSuccessor tracker q =
                (Inr (case dropWhile (\<lambda>v. \<not> valid tracker v) (fifo_list q) of
                        [] \<Rightarrow> None | v # rest \<Rightarrow> Some v), q')
           \<and> fifo_list q' = tl (dropWhile (\<lambda>v. \<not> valid tracker v) (fifo_list q))
           \<and> fifo_ok q'"
  using ok
proof (induction "fifo_size q" arbitrary: q)
  case 0
  then have "Fifo_empty q" "fifo_list q = []" by (simp_all add: Fifo_empty_def fifo_list_Nil)
  with "0.prems" show ?case by (subst findSuccessor.simps) simp
next
  case (Suc n)
  then have ne: "\<not> Fifo_empty q" by (simp add: Fifo_empty_def)
  from dequeue_spec[OF Suc.prems ne] obtain q1 where
    d: "dequeue q = Inr (hd (fifo_list q), q1)" and l1: "fifo_list q1 = tl (fifo_list q)"
    and ok1: "fifo_ok q1" and sz1: "fifo_size q1 = fifo_size q - 1" and nn: "fifo_list q \<noteq> []"
    by blast
  from nn obtain x xs where l: "fifo_list q = x # xs" by (cases "fifo_list q") auto
  from isValid_total[OF tok, of x] obtain r where r: "isValid tracker x = Inr r" by blast
  show ?case
  proof (cases r)
    case True
    then have "valid tracker x" using r by (simp add: valid_def)
    moreover have "findSuccessor tracker q = (Inr (Some x), q1)"
      using ne d r True by (subst findSuccessor.simps) (simp add: l)
    ultimately show ?thesis using l1 ok1 by (simp add: l)
  next
    case False
    then have nv: "\<not> valid tracker x" using r by (simp add: valid_def)
    have st: "findSuccessor tracker q = findSuccessor tracker q1"
      using ne d r False by (subst findSuccessor.simps) (simp add: l)
    have "n = fifo_size q1" using Suc.hyps(2) sz1 by simp
    from Suc.hyps(1)[OF this ok1] show ?thesis
      unfolding st using nv l1 by (simp add: l)
  qed
qed

subsection \<open>Freeing the blocks of a chunk\<close>

lemma test_reset:
  fixes words :: "'a::len word list"
  assumes "p \<noteq> j"
  shows "test (words[wordForBit TYPE('a) j := words ! wordForBit TYPE('a) j AND NOT (maskForBit j)]) p
           = test words p"
proof (cases "p div LENGTH('a) = j div LENGTH('a) \<and> j div LENGTH('a) < length words")
  case True
  then have "p mod LENGTH('a) \<noteq> j mod LENGTH('a)"
    using assms by (metis div_mult_mod_eq)
  then show ?thesis
    using True by (simp add: test_bit wordForBit_def maskForBit_def bit_simps)
next
  case False
  then show ?thesis
    by (auto simp add: test_bit wordForBit_def list_update_beyond not_less)
qed

lemma resetLoop_frame:
  fixes words :: "'a::len word list"
  assumes "resetLoop words js nb = Inr words'"
  shows "length words' = length words \<and> (\<forall>p. p \<notin> set js \<longrightarrow> test words' p = test words p)"
  using assms
proof (induction js arbitrary: words)
  case Nil
  then show ?case by simp
next
  case (Cons j js)
  let ?w = "words[wordForBit TYPE('a) j := words ! wordForBit TYPE('a) j AND NOT (maskForBit j)]"
  from Cons.prems have r: "resetLoop ?w js nb = Inr words'"
    by (simp split: if_splits)
  from Cons.IH[OF r] show ?case by (auto simp add: test_reset)
qed

lemma resetLoop_total:
  "\<forall>j\<in>set js. j < nb \<Longrightarrow> \<exists>words'. resetLoop words js nb = Inr words'"
  by (induction js arbitrary: words) simp_all

lemma blockIndexes_bound:
  "blockIndexes tr ofs bs = Inr is \<Longrightarrow> \<forall>i\<in>set is. i < NUM_BLOCKS tr"
proof (induction bs arbitrary: "is")
  case Nil
  then show ?case by simp
next
  case (Cons b bs)
  from Cons.prems obtain i is' where
    i: "blockIndex tr ofs b = Inr i" and r: "blockIndexes tr ofs bs = Inr is'" and e: "is = i # is'"
    by (auto split: sum.splits)
  have "i < NUM_BLOCKS tr"
    using i by (auto simp add: blockIndex_def Let_def less_mult_imp_div_less split: if_splits)
  with Cons.IH[OF r] e show ?case by simp
qed

text \<open>
  \<^verbatim>\<open>free\<close> changes at most the bits of the blocks it is given, and it passes its
  assertions for a descriptor whose blocks are blocks of the pool.
\<close>

lemma free_blocks_frame:
  assumes "free_blocks tr (blocks d) (numBlocks d) al = (r, al')"
  shows "offset al' = offset al
     \<and> length (allocator_bits al') = length (allocator_bits al)
     \<and> (\<forall>p. p \<notin> set (blockIndexesOf tr (offset al) d) \<longrightarrow>
            test (allocator_bits al') p = test (allocator_bits al) p)"
  using assms resetLoop_frame
  by (fastforce simp add: free_blocks_def blockIndexesOf_def detail_reset_def
      split: if_splits sum.splits)

lemma free_blocks_ok:
  assumes "blocks_ok tr (offset al) d"
  shows "\<exists>al'. free_blocks tr (blocks d) (numBlocks d) al = (Inr (), al')"
proof -
  from assms obtain "is" where
    i: "blockIndexes tr (offset al) (take (numBlocks d) (blocks d)) = Inr is"
    by (auto simp add: blocks_ok_def split: sum.splits)
  from resetLoop_total[OF blockIndexes_bound[OF i], of "allocator_bits al"] obtain w where
    "resetLoop (allocator_bits al) is (NUM_BLOCKS tr) = Inr w" by blast
  then show ?thesis
    using assms i by (simp add: free_blocks_def blocks_ok_def detail_reset_def)
qed

subsection \<open>One descriptor\<close>

lemma updPayload_payload:
  "payload (entries (updPayload i f hs) ! j)
     = (if j = i \<and> i < length (entries hs) then f (payload (entries hs ! i))
        else payload (entries hs ! j))"
  by (cases "j = i"; cases "i < length (entries hs)")
     (simp_all add: updPayload_def list_update_beyond)

lemma relinquishOne_other:
  "\<not> owned visit sm idx \<Longrightarrow>
   relinquishOne ops tr visit rb tracker idx (sm, change, evs) = (Inr (), sm, change, evs)"
  by (auto simp add: relinquishOne_def owned_def Let_def)

lemma relinquishOne_owned:
  assumes "owned visit sm idx"
  shows "relinquishOne ops tr visit rb tracker idx (sm, change, evs) =
    (let d = entries (chunks sm) ! idx
     in case findSuccessor tracker (interestedParties (payload d)) of
          (Inl e, q) \<Rightarrow>
            (Inl e, sm\<lparr>chunks := updPayload idx (\<lambda>d. d\<lparr>interestedParties := q\<rparr>) (chunks sm)\<rparr>,
             change, evs)
        | (Inr (Some nextVisitId), q) \<Rightarrow>
            (Inr (),
             sm\<lparr>chunks := updPayload idx (onDelta (if rb then rollbackOp ops else commitOp ops))
                   (updPayload idx (\<lambda>d. d\<lparr>interestedParties := q, visitId := nextVisitId\<rparr>)
                      (chunks sm))\<rparr>,
             True,
             evs @ [OwnerSet idx nextVisitId, if rb then RolledBack idx else Committed idx])
        | (Inr None, q) \<Rightarrow>
            (case free_blocks tr (blocks (payload d)) (numBlocks (payload d)) (allocator sm) of
               (Inl e, al) \<Rightarrow>
                 (Inl e,
                  sm\<lparr>chunks := updPayload idx (\<lambda>d. d\<lparr>interestedParties := q\<rparr>) (chunks sm),
                     allocator := al\<rparr>, change, evs)
             | (Inr u, al) \<Rightarrow>
                 (case erase (getId d) (updPayload idx (\<lambda>d. d\<lparr>interestedParties := q\<rparr>) (chunks sm)) of
                    (Inl e, ch2) \<Rightarrow>
                      (Inl e, sm\<lparr>chunks := ch2, allocator := al\<rparr>, change, evs @ [Freed idx])
                  | (Inr b, ch2) \<Rightarrow>
                      (Inr (), sm\<lparr>chunks := ch2, allocator := al\<rparr>, change,
                       evs @ [Freed idx, Erased idx]))))"
  using assms
  by (auto simp add: relinquishOne_def owned_def Let_def split: prod.splits sum.splits option.splits)

text \<open>Erasing the descriptor at \<open>idx\<close> by its identifier.\<close>

lemma erase_at:
  assumes ok: "hs_ok hs" and i: "i < length (entries hs)" and id: "getId (entries hs ! i) \<noteq> - 1"
  shows "\<exists>hs'. erase (getId (entries hs ! i)) hs = (Inr True, hs') \<and> hs_ok hs'
           \<and> length (entries hs') = length (entries hs)
           \<and> (\<forall>j. payload (entries hs' ! j) = payload (entries hs ! j))
           \<and> (\<forall>j. j \<noteq> i \<longrightarrow> getId (entries hs' ! j) = getId (entries hs ! j))
           \<and> getId (entries hs' ! i) = - 1
           \<and> (\<forall>j. j \<noteq> i \<longrightarrow>
                  getNextInChain (entries hs' ! j) = getNextInChain (entries hs ! j)
                  \<or> getNextInChain (entries hs ! j) = int i)"
  using erase_member[OF ok doFind_index[OF ok i id]] by blast

text \<open>
  What one iteration leaves as it is: every other descriptor but for its link, and every
  bit of the allocator but those of the blocks of this descriptor.
\<close>

lemma relinquishOne_frame:
  assumes ok: "hs_ok (chunks sm)" and idx: "idx < length (entries (chunks sm))"
    and res: "relinquishOne ops tr visit rb tracker idx (sm, change, evs) = (r, sm', change', evs')"
  shows "hs_ok (chunks sm')
     \<and> length (entries (chunks sm')) = length (entries (chunks sm))
     \<and> (\<forall>j. j \<noteq> idx \<longrightarrow>
            getId (entries (chunks sm') ! j) = getId (entries (chunks sm) ! j)
          \<and> payload (entries (chunks sm') ! j) = payload (entries (chunks sm) ! j))
     \<and> (\<forall>j. j \<noteq> idx \<longrightarrow>
            getNextInChain (entries (chunks sm') ! j) = getNextInChain (entries (chunks sm) ! j)
          \<or> (getNextInChain (entries (chunks sm) ! j) = int idx \<and> owned visit sm idx
             \<and> getId (entries (chunks sm') ! idx) = - 1))
     \<and> (\<not> owned visit sm idx \<longrightarrow> sm' = sm)
     \<and> offset (allocator sm') = offset (allocator sm)
     \<and> (\<forall>p. p \<notin> set (blockIndexesOf tr (offset (allocator sm)) (payload (entries (chunks sm) ! idx)))
            \<longrightarrow> test (allocator_bits (allocator sm')) p = test (allocator_bits (allocator sm)) p)"
proof (cases "owned visit sm idx")
  case False
  with res ok show ?thesis by (simp add: relinquishOne_other)
next
  case True
  let ?d = "entries (chunks sm) ! idx"
  obtain fr q where fs: "findSuccessor tracker (interestedParties (payload ?d)) = (fr, q)"
    by (cases "findSuccessor tracker (interestedParties (payload ?d))") auto
  let ?ch1 = "updPayload idx (\<lambda>d. d\<lparr>interestedParties := q\<rparr>) (chunks sm)"
  have ok1: "hs_ok ?ch1" using ok by (rule updPayload_ok)
  note up = updPayload_proj updPayload_payload
  show ?thesis
  proof (cases fr)
    case (Inl e)
    with res True fs have "sm' = sm\<lparr>chunks := ?ch1\<rparr>"
      by (simp add: relinquishOne_owned)
    then show ?thesis using ok1 True by (simp add: up)
  next
    case (Inr s)
    show ?thesis
    proof (cases s)
      case (Some nv)
      let ?ch2 = "updPayload idx (onDelta (if rb then rollbackOp ops else commitOp ops))
                    (updPayload idx (\<lambda>d. d\<lparr>interestedParties := q, visitId := nv\<rparr>) (chunks sm))"
      from res True fs Inr Some have "sm' = sm\<lparr>chunks := ?ch2\<rparr>"
        by (simp add: relinquishOne_owned)
      moreover have "hs_ok ?ch2" using ok by (intro updPayload_ok)
      ultimately show ?thesis using True by (simp add: up)
    next
      case None
      obtain fb al where fb: "free_blocks tr (blocks (payload ?d)) (numBlocks (payload ?d))
                                (allocator sm) = (fb, al)"
        by (cases "free_blocks tr (blocks (payload ?d)) (numBlocks (payload ?d)) (allocator sm)") auto
      note fr = free_blocks_frame[OF fb]
      show ?thesis
      proof (cases fb)
        case (Inl e)
        with res True fs Inr None fb have "sm' = sm\<lparr>chunks := ?ch1, allocator := al\<rparr>"
          by (simp add: relinquishOne_owned)
        then show ?thesis using ok1 True fr by (simp add: up)
      next
        case (Inr u)
        have id1: "getId (entries ?ch1 ! idx) = getId ?d" by (simp add: up)
        have "getId (entries ?ch1 ! idx) \<noteq> - 1" using True by (simp add: up owned_def)
        from erase_at[OF ok1 _ this] idx obtain ch2 where
          e: "erase (getId ?d) ?ch1 = (Inr True, ch2)" and ok2: "hs_ok ch2"
          and len: "length (entries ch2) = length (entries ?ch1)"
          and pl: "\<forall>j. payload (entries ch2 ! j) = payload (entries ?ch1 ! j)"
          and ids: "\<forall>j. j \<noteq> idx \<longrightarrow> getId (entries ch2 ! j) = getId (entries ?ch1 ! j)"
          and idx1: "getId (entries ch2 ! idx) = - 1"
          and lk: "\<forall>j. j \<noteq> idx \<longrightarrow>
                     getNextInChain (entries ch2 ! j) = getNextInChain (entries ?ch1 ! j)
                     \<or> getNextInChain (entries ?ch1 ! j) = int idx"
          unfolding id1 by (auto simp add: up)
        have lk': "\<forall>j. j \<noteq> idx \<longrightarrow>
                     getNextInChain (entries ch2 ! j) = getNextInChain (entries (chunks sm) ! j)
                     \<or> getNextInChain (entries (chunks sm) ! j) = int idx"
          using lk by (simp add: up)
        from res True fs \<open>fr = Inr s\<close> None fb Inr e
        have "sm' = sm\<lparr>chunks := ch2, allocator := al\<rparr>"
          by (simp add: relinquishOne_owned)
        then show ?thesis using ok2 True fr len pl ids idx1 lk' by (simp add: up)
      qed
    qed
  qed
qed

subsection \<open>The frame of the loop over the descriptors\<close>

lemma owned_cong:
  "getId (entries (chunks sm') ! j) = getId (entries (chunks sm) ! j) \<Longrightarrow>
   payload (entries (chunks sm') ! j) = payload (entries (chunks sm) ! j) \<Longrightarrow>
   owned visit sm' j = owned visit sm j"
  by (simp add: owned_def)

lemma relinquishScan_frame:
  assumes "hs_ok (chunks sm)" and "distinct is"
    and "\<forall>i\<in>set is. i < length (entries (chunks sm))"
    and "relinquishScan ops tr visit rb tracker is (sm, change, evs) = (r, sm', change', evs')"
  shows "hs_ok (chunks sm')
     \<and> length (entries (chunks sm')) = length (entries (chunks sm))
     \<and> (\<forall>j. j \<notin> set is \<or> \<not> owned visit sm j \<longrightarrow>
            getId (entries (chunks sm') ! j) = getId (entries (chunks sm) ! j)
          \<and> payload (entries (chunks sm') ! j) = payload (entries (chunks sm) ! j))
     \<and> offset (allocator sm') = offset (allocator sm)
     \<and> (\<forall>p. (\<forall>j\<in>set is. owned visit sm j \<longrightarrow>
                  p \<notin> set (blockIndexesOf tr (offset (allocator sm))
                              (payload (entries (chunks sm) ! j))))
            \<longrightarrow> test (allocator_bits (allocator sm')) p = test (allocator_bits (allocator sm)) p)"
  using assms
proof (induction "is" arbitrary: sm change evs)
  case Nil
  then show ?case by simp
next
  case (Cons idx rest)
  obtain r1 sm1 c1 e1 where
    one: "relinquishOne ops tr visit rb tracker idx (sm, change, evs) = (r1, sm1, c1, e1)"
    by (cases "relinquishOne ops tr visit rb tracker idx (sm, change, evs)") auto
  from Cons.prems(3) have idx: "idx < length (entries (chunks sm))" by simp
  from relinquishOne_frame[OF Cons.prems(1) idx one] have
    ok1: "hs_ok (chunks sm1)"
    and len1: "length (entries (chunks sm1)) = length (entries (chunks sm))"
    and oth1: "\<And>j. j \<noteq> idx \<Longrightarrow>
                 getId (entries (chunks sm1) ! j) = getId (entries (chunks sm) ! j)
               \<and> payload (entries (chunks sm1) ! j) = payload (entries (chunks sm) ! j)"
    and no1: "\<not> owned visit sm idx \<Longrightarrow> sm1 = sm"
    and off1: "offset (allocator sm1) = offset (allocator sm)"
    and bits1: "\<And>p. p \<notin> set (blockIndexesOf tr (offset (allocator sm))
                              (payload (entries (chunks sm) ! idx))) \<Longrightarrow>
                 test (allocator_bits (allocator sm1)) p = test (allocator_bits (allocator sm)) p"
    by blast+
  have b1: "test (allocator_bits (allocator sm1)) p = test (allocator_bits (allocator sm)) p"
    if "owned visit sm idx \<longrightarrow>
          p \<notin> set (blockIndexesOf tr (offset (allocator sm)) (payload (entries (chunks sm) ! idx)))"
    for p
    using that bits1[of p] no1 by (cases "owned visit sm idx") simp_all
  have e1: "getId (entries (chunks sm1) ! j) = getId (entries (chunks sm) ! j)
            \<and> payload (entries (chunks sm1) ! j) = payload (entries (chunks sm) ! j)"
    if "j \<noteq> idx \<or> \<not> owned visit sm j" for j
    using that oth1[of j] no1 by (cases "j = idx") auto
  show ?case
  proof (cases r1)
    case (Inl e)
    with Cons.prems(4) one have eq: "sm' = sm1" by simp
    have A: "getId (entries (chunks sm1) ! j) = getId (entries (chunks sm) ! j)
             \<and> payload (entries (chunks sm1) ! j) = payload (entries (chunks sm) ! j)"
      if "j \<notin> set (idx # rest) \<or> \<not> owned visit sm j" for j
      using that e1[of j] by auto
    have B: "test (allocator_bits (allocator sm1)) p = test (allocator_bits (allocator sm)) p"
      if "\<forall>j\<in>set (idx # rest). owned visit sm j \<longrightarrow>
               p \<notin> set (blockIndexesOf tr (offset (allocator sm)) (payload (entries (chunks sm) ! j)))"
      for p
      using that b1[of p] by simp
    from ok1 len1 off1 A B show ?thesis unfolding eq by blast
  next
    case (Inr u)
    with Cons.prems(4) one have
      sc: "relinquishScan ops tr visit rb tracker rest (sm1, c1, e1) = (r, sm', change', evs')"
      by simp
    from Cons.prems(2) have d: "distinct rest" "idx \<notin> set rest" by simp_all
    from Cons.prems(3) len1 have bd: "\<forall>i\<in>set rest. i < length (entries (chunks sm1))" by simp
    from Cons.IH[OF ok1 d(1) bd sc] have
      ok': "hs_ok (chunks sm')"
      and len': "length (entries (chunks sm')) = length (entries (chunks sm1))"
      and oth': "\<And>j. j \<notin> set rest \<or> \<not> owned visit sm1 j \<Longrightarrow>
                 getId (entries (chunks sm') ! j) = getId (entries (chunks sm1) ! j)
               \<and> payload (entries (chunks sm') ! j) = payload (entries (chunks sm1) ! j)"
      and off': "offset (allocator sm') = offset (allocator sm1)"
      and bits': "\<And>p. (\<forall>j\<in>set rest. owned visit sm1 j \<longrightarrow>
                          p \<notin> set (blockIndexesOf tr (offset (allocator sm1))
                                      (payload (entries (chunks sm1) ! j)))) \<Longrightarrow>
                 test (allocator_bits (allocator sm')) p = test (allocator_bits (allocator sm1)) p"
      by blast+
    have same: "owned visit sm1 j = owned visit sm j
                \<and> payload (entries (chunks sm1) ! j) = payload (entries (chunks sm) ! j)"
      if "j \<noteq> idx" for j
      using oth1[OF that] by (simp add: owned_def)
    have A: "getId (entries (chunks sm') ! j) = getId (entries (chunks sm) ! j)
             \<and> payload (entries (chunks sm') ! j) = payload (entries (chunks sm) ! j)"
      if "j \<notin> set (idx # rest) \<or> \<not> owned visit sm j" for j
    proof (cases "j = idx")
      case True
      with that have "\<not> owned visit sm idx" by simp
      then have "sm1 = sm" by (rule no1)
      moreover have "j \<notin> set rest" using True d(2) by simp
      ultimately show ?thesis using oth'[of j] by simp
    next
      case False
      with that same[OF False] have "j \<notin> set rest \<or> \<not> owned visit sm1 j" by auto
      from oth'[OF this] e1[of j] False show ?thesis by simp
    qed
    have B: "test (allocator_bits (allocator sm')) p = test (allocator_bits (allocator sm)) p"
      if p: "\<forall>j\<in>set (idx # rest). owned visit sm j \<longrightarrow>
               p \<notin> set (blockIndexesOf tr (offset (allocator sm)) (payload (entries (chunks sm) ! j)))"
      for p
    proof -
      have "\<forall>j\<in>set rest. owned visit sm1 j \<longrightarrow>
              p \<notin> set (blockIndexesOf tr (offset (allocator sm1)) (payload (entries (chunks sm1) ! j)))"
      proof (intro ballI impI)
        fix j assume j: "j \<in> set rest" and o: "owned visit sm1 j"
        from j d(2) have ne: "j \<noteq> idx" by auto
        from same[OF ne] o p j show
          "p \<notin> set (blockIndexesOf tr (offset (allocator sm1)) (payload (entries (chunks sm1) ! j)))"
          by (simp add: off1)
      qed
      from bits'[OF this] b1[of p] p show ?thesis by simp
    qed
    from len' len1 have len2: "length (entries (chunks sm')) = length (entries (chunks sm))"
      by simp
    from off' off1 have off2: "offset (allocator sm') = offset (allocator sm)" by simp
    from ok' len2 off2 A B show ?thesis by blast
  qed
qed

text \<open>
  The link of a descriptor that the visit does not own changes only when the descriptor
  that follows it in its chain is one of the visit and is erased.
\<close>

lemma relinquishScan_links:
  assumes "hs_ok (chunks sm)" and "distinct is"
    and "\<forall>i\<in>set is. i < length (entries (chunks sm))"
    and "relinquishScan ops tr visit rb tracker is (sm, change, evs) = (r, sm', change', evs')"
    and "\<not> owned visit sm j"
  shows "getNextInChain (entries (chunks sm') ! j) = getNextInChain (entries (chunks sm) ! j)
         \<or> (\<exists>k\<in>set is. getNextInChain (entries (chunks sm) ! j) = int k \<and> owned visit sm k
                \<and> getId (entries (chunks sm') ! k) = - 1)"
  using assms
proof (induction "is" arbitrary: sm change evs)
  case Nil
  then show ?case by simp
next
  case (Cons idx rest)
  obtain r1 sm1 c1 e1 where
    one: "relinquishOne ops tr visit rb tracker idx (sm, change, evs) = (r1, sm1, c1, e1)"
    by (cases "relinquishOne ops tr visit rb tracker idx (sm, change, evs)") auto
  from Cons.prems(3) have idx: "idx < length (entries (chunks sm))" by simp
  from relinquishOne_frame[OF Cons.prems(1) idx one] have
    ok1: "hs_ok (chunks sm1)"
    and len1: "length (entries (chunks sm1)) = length (entries (chunks sm))"
    and oth1: "\<And>i. i \<noteq> idx \<Longrightarrow>
                 getId (entries (chunks sm1) ! i) = getId (entries (chunks sm) ! i)
               \<and> payload (entries (chunks sm1) ! i) = payload (entries (chunks sm) ! i)"
    and lk1: "\<And>i. i \<noteq> idx \<Longrightarrow>
                 getNextInChain (entries (chunks sm1) ! i) = getNextInChain (entries (chunks sm) ! i)
               \<or> (getNextInChain (entries (chunks sm) ! i) = int idx \<and> owned visit sm idx
                  \<and> getId (entries (chunks sm1) ! idx) = - 1)"
    and no1: "\<not> owned visit sm idx \<Longrightarrow> sm1 = sm"
    by blast+
  have step: "getNextInChain (entries (chunks sm1) ! j) = getNextInChain (entries (chunks sm) ! j)
              \<or> (getNextInChain (entries (chunks sm) ! j) = int idx \<and> owned visit sm idx
                 \<and> getId (entries (chunks sm1) ! idx) = - 1)"
    using lk1[of j] no1 Cons.prems(5) by (cases "j = idx") auto
  have nj1: "\<not> owned visit sm1 j"
    using oth1[of j] no1 Cons.prems(5) by (cases "j = idx") (auto simp add: owned_def)
  show ?case
  proof (cases r1)
    case (Inl e)
    with Cons.prems(4) one have "sm' = sm1" by simp
    with step show ?thesis by auto
  next
    case (Inr u)
    with Cons.prems(4) one have
      sc: "relinquishScan ops tr visit rb tracker rest (sm1, c1, e1) = (r, sm', change', evs')"
      by simp
    from Cons.prems(2) have d: "distinct rest" "idx \<notin> set rest" by simp_all
    from Cons.prems(3) len1 have bd: "\<forall>i\<in>set rest. i < length (entries (chunks sm1))" by simp
    from relinquishScan_frame[OF ok1 d(1) bd sc] d(2)
    have keep: "getId (entries (chunks sm') ! idx) = getId (entries (chunks sm1) ! idx)" by blast
    have own1: "owned visit sm k" if "owned visit sm1 k" for k
      using that oth1[of k] no1 by (cases "k = idx") (auto simp add: owned_def)
    from Cons.IH[OF ok1 d(1) bd sc nj1]
    consider "getNextInChain (entries (chunks sm') ! j) = getNextInChain (entries (chunks sm1) ! j)"
      | k where "k \<in> set rest" "getNextInChain (entries (chunks sm1) ! j) = int k"
          "owned visit sm1 k" "getId (entries (chunks sm') ! k) = - 1"
      by blast
    then show ?thesis
    proof cases
      case 1
      from step show ?thesis
      proof
        assume "getNextInChain (entries (chunks sm1) ! j) = getNextInChain (entries (chunks sm) ! j)"
        with 1 show ?thesis by simp
      next
        assume a: "getNextInChain (entries (chunks sm) ! j) = int idx \<and> owned visit sm idx
                   \<and> getId (entries (chunks sm1) ! idx) = - 1"
        then have "getId (entries (chunks sm') ! idx) = - 1" using keep by simp
        with a show ?thesis by auto
      qed
    next
      case (2 k)
      from step show ?thesis
      proof
        assume "getNextInChain (entries (chunks sm1) ! j) = getNextInChain (entries (chunks sm) ! j)"
        with 2 own1[OF 2(3)] show ?thesis by auto
      next
        assume a: "getNextInChain (entries (chunks sm) ! j) = int idx \<and> owned visit sm idx
                   \<and> getId (entries (chunks sm1) ! idx) = - 1"
        then have "getId (entries (chunks sm') ! idx) = - 1" using keep by simp
        with a show ?thesis by auto
      qed
    qed
  qed
qed

lemma backing_apart:
  assumes "blocks_apart tr sm" and "j < length (entries (chunks sm))"
    and "k < length (entries (chunks sm))" and "j \<noteq> k" and "p \<in> set (backing tr sm j)"
  shows "p \<notin> set (backing tr sm k)"
proof -
  from assms(1) have "\<forall>j<length (entries (chunks sm)). \<forall>k<length (entries (chunks sm)).
                        j = k \<or> (\<forall>p\<in>set (backing tr sm j). p \<notin> set (backing tr sm k))"
    by (auto simp add: blocks_apart_def list_all_iff)
  with assms(2-5) show ?thesis by blast
qed

text \<open>
  Claim C10, as the specification states it, at the end of visit 2, which owns chunk 2:
  descriptor 0 holds chunk 1 of visit 1, and the erasure of descriptor 1, its successor
  in the chain of their bucket, changes its link.
\<close>

theorem relinquishOwnership_changes_link:
  "\<not> owned 2 (data cmChain) 0
   \<and> getNextInChain (entries (chunks (data cmChain)) ! 0) = 1
   \<and> getNextInChain (entries (chunks (fst (snd
        (relinquishOwnership ops0 tr0 2 False (snd (erase 2 (visits cmChain))) (data cmChain))))) ! 0)
       = - 1"
  by code_simp

text \<open>
  Claim C10, amended. On a well-formed set of descriptors, \<^verbatim>\<open>relinquishOwnership\<close> leaves
  the set well-formed, and for a descriptor that is free or owned by another visit it
  leaves the identifier and every field of the payload as they are, the queue of
  interested parties among them. The link of such a descriptor changes only if the
  descriptor that follows it in its chain is one of the visit and is erased by the call.
  Every bit of the allocator that is not the bit of a block of a descriptor of the visit
  stays as it is; so do, where no block is held by two descriptors, the bits that back
  the blocks of the descriptor.
\<close>

theorem relinquishOwnership_frame:
  assumes "hs_ok (chunks sm)"
  shows "case relinquishOwnership ops tr visit rb tracker sm of
           (r, sm', evs) \<Rightarrow>
             hs_ok (chunks sm')
             \<and> length (entries (chunks sm')) = length (entries (chunks sm))
             \<and> (\<forall>j < length (entries (chunks sm)). \<not> owned visit sm j \<longrightarrow>
                    getId (entries (chunks sm') ! j) = getId (entries (chunks sm) ! j)
                  \<and> payload (entries (chunks sm') ! j) = payload (entries (chunks sm) ! j)
                  \<and> (getNextInChain (entries (chunks sm') ! j)
                       = getNextInChain (entries (chunks sm) ! j)
                     \<or> (\<exists>k < length (entries (chunks sm)).
                           getNextInChain (entries (chunks sm) ! j) = int k \<and> owned visit sm k
                           \<and> getId (entries (chunks sm') ! k) = - 1)))
             \<and> (\<forall>p. (\<forall>j < length (entries (chunks sm)). owned visit sm j \<longrightarrow>
                          p \<notin> set (blockIndexesOf tr (offset (allocator sm))
                                      (payload (entries (chunks sm) ! j))))
                    \<longrightarrow> test (allocator_bits (allocator sm')) p
                        = test (allocator_bits (allocator sm)) p)
             \<and> (blocks_apart tr sm \<longrightarrow>
                  (\<forall>j < length (entries (chunks sm)). \<not> owned visit sm j \<longrightarrow>
                     (\<forall>p \<in> set (backing tr sm j).
                        test (allocator_bits (allocator sm')) p
                        = test (allocator_bits (allocator sm)) p)))"
proof -
  let ?n = "length (entries (chunks sm))"
  obtain r sm' change' evs' where
    sc: "relinquishScan ops tr visit rb tracker [0..<?n] (sm, False, []) = (r, sm', change', evs')"
    by (cases "relinquishScan ops tr visit rb tracker [0..<?n] (sm, False, [])") auto
  have d: "distinct [0..<?n]" "\<forall>i\<in>set [0..<?n]. i < ?n" by simp_all
  from relinquishScan_frame[OF assms d sc] have
    ok': "hs_ok (chunks sm')" and len: "length (entries (chunks sm')) = ?n"
    and same: "\<And>j. \<not> owned visit sm j \<Longrightarrow>
                 getId (entries (chunks sm') ! j) = getId (entries (chunks sm) ! j)
               \<and> payload (entries (chunks sm') ! j) = payload (entries (chunks sm) ! j)"
    and bits: "\<And>p. (\<forall>j\<in>set [0..<?n]. owned visit sm j \<longrightarrow>
                          p \<notin> set (blockIndexesOf tr (offset (allocator sm))
                                      (payload (entries (chunks sm) ! j)))) \<Longrightarrow>
                 test (allocator_bits (allocator sm')) p = test (allocator_bits (allocator sm)) p"
    by blast+
  have links: "getNextInChain (entries (chunks sm') ! j) = getNextInChain (entries (chunks sm) ! j)
               \<or> (\<exists>k < ?n. getNextInChain (entries (chunks sm) ! j) = int k \<and> owned visit sm k
                      \<and> getId (entries (chunks sm') ! k) = - 1)"
    if "\<not> owned visit sm j" for j
    using relinquishScan_links[OF assms d sc that] by auto
  have bits1: "test (allocator_bits (allocator sm')) p = test (allocator_bits (allocator sm)) p"
    if "\<forall>j < ?n. owned visit sm j \<longrightarrow>
          p \<notin> set (blockIndexesOf tr (offset (allocator sm)) (payload (entries (chunks sm) ! j)))"
    for p
    using bits[of p] that by simp
  have bits2: "test (allocator_bits (allocator sm')) p = test (allocator_bits (allocator sm)) p"
    if ap: "blocks_apart tr sm" and j: "j < ?n" "\<not> owned visit sm j" and p: "p \<in> set (backing tr sm j)"
    for j p
  proof (rule bits1, intro allI impI)
    fix k assume k: "k < ?n" "owned visit sm k"
    with j have "j \<noteq> k" by auto
    from backing_apart[OF ap j(1) k(1) this p] k(2)
    show "p \<notin> set (blockIndexesOf tr (offset (allocator sm)) (payload (entries (chunks sm) ! k)))"
      by (simp add: backing_def owned_def)
  qed
  have res: "relinquishOwnership ops tr visit rb tracker sm
               = (case r of Inl e \<Rightarrow> Inl e | Inr u \<Rightarrow> Inr change', sm', evs')"
    by (cases r) (simp_all add: relinquishOwnership_def sc)
  show ?thesis
    unfolding res using ok' len same links bits1 bits2 by simp
qed

theorem relinquishOwnership_frame_witness:
  "hs_ok (chunks smBlocks) \<and> blocks_apart tr0 smBlocks \<and> \<not> owned 2 smBlocks 0
   \<and> owned 2 smBlocks 1 \<and> backing tr0 smBlocks 0 = [0]
   \<and> getId (entries (chunks (fst (snd
        (relinquishOwnership ops0 tr0 2 False (snd (erase 2 (visits cmChain))) smBlocks)))) ! 0) = 1
   \<and> payload (entries (chunks (fst (snd
        (relinquishOwnership ops0 tr0 2 False (snd (erase 2 (visits cmChain))) smBlocks)))) ! 0)
       = payload (entries (chunks smBlocks) ! 0)
   \<and> test (allocator_bits (allocator (fst (snd
        (relinquishOwnership ops0 tr0 2 False (snd (erase 2 (visits cmChain))) smBlocks))))) 0
   \<and> getId (entries (chunks (fst (snd
        (relinquishOwnership ops0 tr0 2 False (snd (erase 2 (visits cmChain))) smBlocks)))) ! 1) = - 1"
proof -
  have ok: "hs_ok (chunks smBlocks)"
    by (rule hs_ok_small[where n = 4]) (code_simp, simp, simp, code_simp)
  have len: "length (entries (chunks smBlocks)) = 4" by code_simp
  have ap: "blocks_apart tr0 smBlocks" by code_simp
  have no: "\<not> owned 2 smBlocks 0" by code_simp
  have ow: "owned 2 smBlocks 1" by code_simp
  have id: "getId (entries (chunks smBlocks) ! 0) = 1" by code_simp
  have bk: "backing tr0 smBlocks 0 = [0]" by code_simp
  have t0: "test (allocator_bits (allocator smBlocks)) 0" by code_simp
  have e1: "getId (entries (chunks (fst (snd
        (relinquishOwnership ops0 tr0 2 False (snd (erase 2 (visits cmChain))) smBlocks)))) ! 1) = - 1"
    by code_simp
  obtain r sm' evs where
    res: "relinquishOwnership ops0 tr0 2 False (snd (erase 2 (visits cmChain))) smBlocks = (r, sm', evs)"
    by (cases "relinquishOwnership ops0 tr0 2 False (snd (erase 2 (visits cmChain))) smBlocks") auto
  from relinquishOwnership_frame[OF ok, where ops = ops0 and tr = tr0 and visit = 2 and rb = False
         and tracker = "snd (erase 2 (visits cmChain))"]
  have A: "\<forall>j<4. \<not> owned 2 smBlocks j \<longrightarrow>
              getId (entries (chunks sm') ! j) = getId (entries (chunks smBlocks) ! j)
            \<and> payload (entries (chunks sm') ! j) = payload (entries (chunks smBlocks) ! j)
            \<and> (getNextInChain (entries (chunks sm') ! j)
                 = getNextInChain (entries (chunks smBlocks) ! j)
               \<or> (\<exists>k<4. getNextInChain (entries (chunks smBlocks) ! j) = int k
                      \<and> owned 2 smBlocks k \<and> getId (entries (chunks sm') ! k) = - 1))"
    and B: "blocks_apart tr0 smBlocks \<longrightarrow>
              (\<forall>j<4. \<not> owned 2 smBlocks j \<longrightarrow>
                 (\<forall>p \<in> set (backing tr0 smBlocks j).
                    test (allocator_bits (allocator sm')) p
                    = test (allocator_bits (allocator smBlocks)) p))"
    by (simp_all add: res len)
  from A[rule_format, of 0] no id have
    a: "getId (entries (chunks sm') ! 0) = 1"
       "payload (entries (chunks sm') ! 0) = payload (entries (chunks smBlocks) ! 0)"
    by simp_all
  from B[rule_format, OF ap _ no, of 0] bk t0 have
    b: "test (allocator_bits (allocator sm')) 0" by simp
  from e1 have c: "getId (entries (chunks sm') ! 1) = - 1" by (simp add: res)
  show ?thesis
    using ok ap no ow bk a b c by (simp add: res)
qed

subsection \<open>The hand-off\<close>

lemma onDelta_keeps [simp]:
  "visitId (onDelta f d) = visitId d" "interestedParties (onDelta f d) = interestedParties d"
  by (simp_all add: onDelta_def split: prod.splits)

lemma handed_over_cong:
  assumes "getId (entries (chunks a) ! j) = getId (entries (chunks b) ! j)"
    "payload (entries (chunks a) ! j) = payload (entries (chunks b) ! j)"
    "getId (entries (chunks a') ! j) = getId (entries (chunks b') ! j)"
    "payload (entries (chunks a') ! j) = payload (entries (chunks b') ! j)"
  shows "handed_over tracker a a' j = handed_over tracker b b' j"
proof -
  have w: "waiting tracker a j = waiting tracker b j"
    using assms(2) by (simp add: waiting_def queue_def)
  have q: "queue a' j = queue b' j" "chunk_getVisitId a' j = chunk_getVisitId b' j"
    using assms(4) by (simp_all add: queue_def chunk_getVisitId_def)
  show ?thesis unfolding handed_over_def w q assms(1) assms(3) by (rule refl)
qed

text \<open>One iteration for a descriptor of the visit: it does not fail, and it hands over.\<close>

lemma relinquishOne_handoff:
  assumes ok: "hs_ok (chunks sm)" and tok: "hs_ok tracker"
    and idx: "idx < length (entries (chunks sm))"
    and own: "owned visit sm idx"
    and fok: "fifo_ok (queue sm idx)"
    and bok: "blocks_ok tr (offset (allocator sm)) (payload (entries (chunks sm) ! idx))"
  shows "\<exists>sm' evs'. relinquishOne ops tr visit rb tracker idx (sm, change, evs)
                       = (Inr (), sm', change \<or> waiting tracker sm idx \<noteq> [], evs')
                   \<and> handed_over tracker sm sm' idx"
proof -
  let ?d = "entries (chunks sm) ! idx"
  let ?w = "waiting tracker sm idx"
  from findSuccessor_spec[OF tok fok] obtain q where
    fs: "findSuccessor tracker (interestedParties (payload ?d))
           = (Inr (case ?w of [] \<Rightarrow> None | v # rest \<Rightarrow> Some v), q)"
    and ql: "fifo_list q = tl ?w" and qok: "fifo_ok q"
    by (auto simp add: waiting_def queue_def)
  note up = updPayload_proj updPayload_payload
  show ?thesis
  proof (cases ?w)
    case (Cons nv rest)
    let ?ch2 = "updPayload idx (onDelta (if rb then rollbackOp ops else commitOp ops))
                  (updPayload idx (\<lambda>d. d\<lparr>interestedParties := q, visitId := nv\<rparr>) (chunks sm))"
    have "relinquishOne ops tr visit rb tracker idx (sm, change, evs)
            = (Inr (), sm\<lparr>chunks := ?ch2\<rparr>, True,
               evs @ [OwnerSet idx nv, if rb then RolledBack idx else Committed idx])"
      using fs Cons by (simp add: relinquishOne_owned[OF own])
    moreover have "handed_over tracker sm (sm\<lparr>chunks := ?ch2\<rparr>) idx"
      using Cons ql qok idx
      by (simp add: handed_over_def chunk_getVisitId_def queue_def up)
    ultimately show ?thesis using Cons by auto
  next
    case Nil
    let ?ch1 = "updPayload idx (\<lambda>d. d\<lparr>interestedParties := q\<rparr>) (chunks sm)"
    from free_blocks_ok[OF bok] obtain al where
      fb: "free_blocks tr (blocks (payload ?d)) (numBlocks (payload ?d)) (allocator sm) = (Inr (), al)"
      by blast
    have ok1: "hs_ok ?ch1" using ok by (rule updPayload_ok)
    have id1: "getId (entries ?ch1 ! idx) = getId ?d" by (simp add: up)
    have "getId (entries ?ch1 ! idx) \<noteq> - 1" using own by (simp add: up owned_def)
    from erase_at[OF ok1 _ this] idx obtain ch2 where
      e: "erase (getId ?d) ?ch1 = (Inr True, ch2)" and idx1: "getId (entries ch2 ! idx) = - 1"
      unfolding id1 by (auto simp add: up)
    have "relinquishOne ops tr visit rb tracker idx (sm, change, evs)
            = (Inr (), sm\<lparr>chunks := ch2, allocator := al\<rparr>, change, evs @ [Freed idx, Erased idx])"
      using fs Nil fb e by (simp add: relinquishOne_owned[OF own])
    moreover have "handed_over tracker sm (sm\<lparr>chunks := ch2, allocator := al\<rparr>) idx"
      using Nil idx1 by (simp add: handed_over_def)
    ultimately show ?thesis using Nil by auto
  qed
qed

lemma relinquishScan_handoff:
  assumes "hs_ok (chunks sm)" and tok: "hs_ok tracker" and "distinct is"
    and "\<forall>i\<in>set is. i < length (entries (chunks sm))"
    and "\<forall>i\<in>set is. owned visit sm i \<longrightarrow>
           fifo_ok (queue sm i)
           \<and> blocks_ok tr (offset (allocator sm)) (payload (entries (chunks sm) ! i))"
  shows "\<exists>sm' evs'. relinquishScan ops tr visit rb tracker is (sm, change, evs)
                       = (Inr (), sm',
                          change \<or> (\<exists>j\<in>set is. owned visit sm j \<and> waiting tracker sm j \<noteq> []),
                          evs')
                   \<and> (\<forall>j\<in>set is. owned visit sm j \<longrightarrow> handed_over tracker sm sm' j)"
  using assms(1,3-5)
proof (induction "is" arbitrary: sm change evs)
  case Nil
  then show ?case by simp
next
  case (Cons idx rest)
  from Cons.prems(3) have idx: "idx < length (entries (chunks sm))" by simp
  let ?c1 = "change \<or> (owned visit sm idx \<and> waiting tracker sm idx \<noteq> [])"
  have "\<exists>sm1 e1. relinquishOne ops tr visit rb tracker idx (sm, change, evs) = (Inr (), sm1, ?c1, e1)
                 \<and> (owned visit sm idx \<longrightarrow> handed_over tracker sm sm1 idx)"
  proof (cases "owned visit sm idx")
    case True
    with Cons.prems(4) have "fifo_ok (queue sm idx)"
      "blocks_ok tr (offset (allocator sm)) (payload (entries (chunks sm) ! idx))" by simp_all
    from relinquishOne_handoff[OF Cons.prems(1) tok idx True this, of ops rb change evs] True
    show ?thesis by auto
  next
    case False
    then show ?thesis by (simp add: relinquishOne_other)
  qed
  then obtain sm1 e1 where
    one: "relinquishOne ops tr visit rb tracker idx (sm, change, evs) = (Inr (), sm1, ?c1, e1)"
    and h1: "owned visit sm idx \<longrightarrow> handed_over tracker sm sm1 idx" by blast
  from relinquishOne_frame[OF Cons.prems(1) idx one] have
    ok1: "hs_ok (chunks sm1)"
    and len1: "length (entries (chunks sm1)) = length (entries (chunks sm))"
    and oth1: "\<And>j. j \<noteq> idx \<Longrightarrow>
                 getId (entries (chunks sm1) ! j) = getId (entries (chunks sm) ! j)
               \<and> payload (entries (chunks sm1) ! j) = payload (entries (chunks sm) ! j)"
    and off1: "offset (allocator sm1) = offset (allocator sm)"
    by blast+
  from Cons.prems(2) have d: "distinct rest" "idx \<notin> set rest" by simp_all
  from Cons.prems(3) len1 have bd: "\<forall>i\<in>set rest. i < length (entries (chunks sm1))" by simp
  have same: "owned visit sm1 j = owned visit sm j" "queue sm1 j = queue sm j"
    "waiting tracker sm1 j = waiting tracker sm j"
    "payload (entries (chunks sm1) ! j) = payload (entries (chunks sm) ! j)"
    "getId (entries (chunks sm1) ! j) = getId (entries (chunks sm) ! j)"
    if "j \<in> set rest" for j
  proof -
    from that d(2) have "j \<noteq> idx" by auto
    from oth1[OF this] show "owned visit sm1 j = owned visit sm j" "queue sm1 j = queue sm j"
      "waiting tracker sm1 j = waiting tracker sm j"
      "payload (entries (chunks sm1) ! j) = payload (entries (chunks sm) ! j)"
      "getId (entries (chunks sm1) ! j) = getId (entries (chunks sm) ! j)"
      by (simp_all add: owned_def queue_def waiting_def)
  qed
  have wf1: "\<forall>i\<in>set rest. owned visit sm1 i \<longrightarrow>
               fifo_ok (queue sm1 i)
               \<and> blocks_ok tr (offset (allocator sm1)) (payload (entries (chunks sm1) ! i))"
    using Cons.prems(4) same by (simp add: off1)
  from Cons.IH[OF ok1 d(1) bd wf1, of ?c1 e1] obtain sm' evs' where
    sc: "relinquishScan ops tr visit rb tracker rest (sm1, ?c1, e1)
           = (Inr (), sm',
              ?c1 \<or> (\<exists>j\<in>set rest. owned visit sm1 j \<and> waiting tracker sm1 j \<noteq> []), evs')"
    and h': "\<forall>j\<in>set rest. owned visit sm1 j \<longrightarrow> handed_over tracker sm1 sm' j"
    by blast
  have ch: "(?c1 \<or> (\<exists>j\<in>set rest. owned visit sm1 j \<and> waiting tracker sm1 j \<noteq> []))
            = (change \<or> (\<exists>j\<in>set (idx # rest). owned visit sm j \<and> waiting tracker sm j \<noteq> []))"
    using same by auto
  have res: "relinquishScan ops tr visit rb tracker (idx # rest) (sm, change, evs)
               = (Inr (), sm',
                  change \<or> (\<exists>j\<in>set (idx # rest). owned visit sm j \<and> waiting tracker sm j \<noteq> []),
                  evs')"
    using one sc unfolding ch by simp
  from relinquishScan_frame[OF ok1 d(1) bd sc] d(2) have
    keep: "getId (entries (chunks sm') ! idx) = getId (entries (chunks sm1) ! idx)"
          "payload (entries (chunks sm') ! idx) = payload (entries (chunks sm1) ! idx)"
    by blast+
  have "handed_over tracker sm sm' j" if j: "j \<in> set (idx # rest)" and o: "owned visit sm j" for j
  proof (cases "j = idx")
    case True
    from h1 o True have "handed_over tracker sm sm1 idx" by simp
    moreover have "handed_over tracker sm sm' idx = handed_over tracker sm sm1 idx"
      by (rule handed_over_cong) (simp_all add: keep)
    ultimately show ?thesis using True by simp
  next
    case False
    with j have jr: "j \<in> set rest" by simp
    with h' o same(1)[OF jr] have "handed_over tracker sm1 sm' j" by simp
    moreover have "handed_over tracker sm sm' j = handed_over tracker sm1 sm' j"
      by (rule handed_over_cong) (simp_all add: same[OF jr])
    ultimately show ?thesis by simp
  qed
  with res show ?case by blast
qed

text \<open>Registering interest in a chunk that exists puts the visit at the back of its queue.\<close>

lemma findOrInsert_found:
  "doFind hs c = Inr (Some j) \<Longrightarrow> findOrInsert dflt c hs = (Inr (Some j, False), hs)"
  by (auto simp add: doFind_def findOrInsert_def split: sum.splits prod.splits if_splits)

lemma doFind_bound:
  assumes "hs_ok hs" and "doFind hs c = Inr (Some j)"
  shows "j < length (entries hs)"
proof -
  from assms(1) obtain fl cls where inv: "hs_inv hs fl cls" unfolding hs_ok_iff by blast
  from doFind_member[OF inv assms(2)]
  have "j \<in> set (cls (bucketOf (length (entries hs)) c))" by simp
  moreover from inv_chain_bound[OF inv inv_bucket[OF inv, of c]]
  have "set (cls (bucketOf (length (entries hs)) c)) \<subseteq> {0..<length (entries hs)}" .
  ultimately show ?thesis by auto
qed

lemma register_interest:
  assumes ok: "hs_ok (chunks sm)" and f: "doFind (chunks sm) c = Inr (Some j)"
    and fok: "fifo_ok (queue sm j)" and nf: "\<not> Fifo_full (queue sm j)"
  shows "\<exists>sm'. createOrRegisterInterest dflt v [c] (toRead, toWaitFor, sm)
                  = (Inr (), toRead, toWaitFor @ [j], sm')
              \<and> fifo_list (queue sm' j) = fifo_list (queue sm j) @ [v]
              \<and> fifo_ok (queue sm' j)
              \<and> chunk_getVisitId sm' j = chunk_getVisitId sm j
              \<and> getId (entries (chunks sm') ! j) = getId (entries (chunks sm) ! j)"
proof -
  from doFind_bound[OF ok f] have j: "j < length (entries (chunks sm))" .
  from enqueue_spec[OF fok nf, of v] obtain q where
    e: "enqueue v (queue sm j) = Inr q" and ql: "fifo_list q = fifo_list (queue sm j) @ [v]"
    and qok: "fifo_ok q" by blast
  let ?sm' = "sm\<lparr>chunks := updPayload j (\<lambda>d. d\<lparr>interestedParties := q\<rparr>) (chunks sm)\<rparr>"
  have "createOrRegisterInterest dflt v [c] (toRead, toWaitFor, sm)
          = (Inr (), toRead, toWaitFor @ [j], ?sm')"
    using e by (simp add: findOrInsert_found[OF f] queue_def)
  moreover have "fifo_list (queue ?sm' j) = fifo_list (queue sm j) @ [v]" "fifo_ok (queue ?sm' j)"
    "chunk_getVisitId ?sm' j = chunk_getVisitId sm j"
    "getId (entries (chunks ?sm') ! j) = getId (entries (chunks sm) ! j)"
    using j ql qok by (simp_all add: queue_def chunk_getVisitId_def updPayload_proj updPayload_payload)
  ultimately show ?thesis by blast
qed

text \<open>
  Claim C2. On well-formed sets of descriptors and of visits: a visit that registers its
  interest in a chunk that exists, and whose queue is not full, is put at the back of
  the queue of the chunk, which keeps its owner. And \<^verbatim>\<open>relinquishOwnership\<close>, for a visit
  whose descriptors are ready to be relinquished, does not fail; it gives every chunk of
  the visit to the first visit in its queue that is valid, and leaves in the queue the
  visits behind that one, in their order: the identifiers before it, of visits that are
  not valid, are dropped and not queued again. A chunk with no valid visit in its queue
  is erased. The result tells whether a chunk changed hands. So the visits get a chunk in
  the order in which they registered their interest.
\<close>

theorem fifo_handoff:
  assumes "hs_ok (chunks sm)" and "hs_ok tracker"
  shows "(\<forall>c j v. doFind (chunks sm) c = Inr (Some j) \<and> fifo_ok (queue sm j)
                  \<and> \<not> Fifo_full (queue sm j) \<longrightarrow>
            (case createOrRegisterInterest dflt v [c] (toRead, toWaitFor, sm) of
               (r, toRead', toWaitFor', sm') \<Rightarrow>
                 r = Inr () \<and> toRead' = toRead \<and> toWaitFor' = toWaitFor @ [j]
                 \<and> fifo_list (queue sm' j) = fifo_list (queue sm j) @ [v]
                 \<and> fifo_ok (queue sm' j)
                 \<and> chunk_getVisitId sm' j = chunk_getVisitId sm j
                 \<and> getId (entries (chunks sm') ! j) = getId (entries (chunks sm) ! j)))
     \<and> (relinquishable tr visit sm \<longrightarrow>
            (case relinquishOwnership ops tr visit rb tracker sm of
               (r, sm', evs) \<Rightarrow>
                 r = Inr (\<exists>j < length (entries (chunks sm)).
                            owned visit sm j \<and> waiting tracker sm j \<noteq> [])
                 \<and> hs_ok (chunks sm')
                 \<and> (\<forall>j < length (entries (chunks sm)).
                       owned visit sm j \<longrightarrow> handed_over tracker sm sm' j)))"
proof (intro conjI allI impI)
  fix c j v
  assume "doFind (chunks sm) c = Inr (Some j) \<and> fifo_ok (queue sm j) \<and> \<not> Fifo_full (queue sm j)"
  then have f: "doFind (chunks sm) c = Inr (Some j)" and fok: "fifo_ok (queue sm j)"
    and nf: "\<not> Fifo_full (queue sm j)" by simp_all
  from register_interest[OF assms(1) f fok nf, of dflt v toRead toWaitFor]
  show "case createOrRegisterInterest dflt v [c] (toRead, toWaitFor, sm) of
          (r, toRead', toWaitFor', sm') \<Rightarrow>
            r = Inr () \<and> toRead' = toRead \<and> toWaitFor' = toWaitFor @ [j]
            \<and> fifo_list (queue sm' j) = fifo_list (queue sm j) @ [v]
            \<and> fifo_ok (queue sm' j)
            \<and> chunk_getVisitId sm' j = chunk_getVisitId sm j
            \<and> getId (entries (chunks sm') ! j) = getId (entries (chunks sm) ! j)"
    by auto
next
  let ?n = "length (entries (chunks sm))"
  assume "relinquishable tr visit sm"
  then have wf: "\<forall>i\<in>set [0..<?n]. owned visit sm i \<longrightarrow>
                   fifo_ok (queue sm i)
                   \<and> blocks_ok tr (offset (allocator sm)) (payload (entries (chunks sm) ! i))"
    by (auto simp add: relinquishable_def list_all_iff)
  have d: "distinct [0..<?n]" "\<forall>i\<in>set [0..<?n]. i < ?n" by simp_all
  from relinquishScan_handoff[OF assms d wf, of ops rb False "[]"] obtain sm' evs' where
    sc: "relinquishScan ops tr visit rb tracker [0..<?n] (sm, False, [])
           = (Inr (), sm',
              False \<or> (\<exists>j\<in>set [0..<?n]. owned visit sm j \<and> waiting tracker sm j \<noteq> []), evs')"
    and h: "\<forall>j\<in>set [0..<?n]. owned visit sm j \<longrightarrow> handed_over tracker sm sm' j"
    by blast
  from relinquishScan_frame[OF assms(1) d sc] have ok': "hs_ok (chunks sm')" by blast
  have ex: "(\<exists>j\<in>set [0..<?n]. owned visit sm j \<and> waiting tracker sm j \<noteq> [])
            = (\<exists>j < ?n. owned visit sm j \<and> waiting tracker sm j \<noteq> [])"
    by auto
  show "case relinquishOwnership ops tr visit rb tracker sm of
          (r, sm', evs) \<Rightarrow>
            r = Inr (\<exists>j < ?n. owned visit sm j \<and> waiting tracker sm j \<noteq> [])
            \<and> hs_ok (chunks sm')
            \<and> (\<forall>j < ?n. owned visit sm j \<longrightarrow> handed_over tracker sm sm' j)"
  proof -
    have h': "\<forall>j < ?n. owned visit sm j \<longrightarrow> handed_over tracker sm sm' j"
      using h by simp
    have sc': "relinquishScan ops tr visit rb tracker [0..<?n] (sm, False, [])
                 = (Inr (), sm', \<exists>j < ?n. owned visit sm j \<and> waiting tracker sm j \<noteq> [], evs')"
      using sc unfolding ex by (simp only: simp_thms)
    show ?thesis
      unfolding relinquishOwnership_def sc' using h' ok' by simp
  qed
qed

theorem fifo_handoff_witness:
  "fifo_list (queue (data cmQueue3) 0) = [2, 3]
   \<and> fifo_list (queue (data cmQueue) 0) = [2, 3, 4]
   \<and> chunk_getVisitId (data cmQueue) 0 = 1
   \<and> chunk_getVisitId (data (ended 1 cmQueue)) 0 = 2
   \<and> fifo_list (queue (data (ended 1 cmQueue)) 0) = [3, 4]
   \<and> chunk_getVisitId (data (ended 2 (ended 1 cmQueue))) 0 = 3
   \<and> fifo_list (queue (data (ended 2 (ended 1 cmQueue))) 0) = [4]"
proof -
  let ?t1 = "snd (erase 1 (visits cmQueue))"
  let ?t2 = "snd (erase 2 (visits (ended 1 cmQueue)))"
  let ?s0 = "data cmQueue3"
  let ?s1 = "data cmQueue"
  let ?s2 = "data (ended 1 cmQueue)"
  let ?s3 = "data (ended 2 (ended 1 cmQueue))"
  text \<open>the registration of visit 4\<close>
  have ok0: "hs_ok (chunks ?s0)"
    by (rule hs_ok_small[where n = 4]) (code_simp, simp, simp, code_simp)
  have tk0: "hs_ok (visits cmQueue3)"
    by (rule hs_ok_small[where n = 4]) (code_simp, simp, simp, code_simp)
  have f0: "doFind (chunks ?s0) 200 = Inr (Some 0)" "fifo_ok (queue ?s0 0)"
    "\<not> Fifo_full (queue ?s0 0)" "fifo_list (queue ?s0 0) = [2, 3]"
    "chunk_getVisitId ?s0 0 = 1"
    by code_simp+
  have s1: "?s1 = snd (snd (snd (createOrRegisterInterest (dfltChunk 4) 4 [200] ([], [], ?s0))))"
    by code_simp
  from fifo_handoff[OF ok0 tk0, where dflt = "dfltChunk 4" and toRead = "[]" and toWaitFor = "[]"]
  have "\<forall>c j v. doFind (chunks ?s0) c = Inr (Some j) \<and> fifo_ok (queue ?s0 j)
                  \<and> \<not> Fifo_full (queue ?s0 j) \<longrightarrow>
            (case createOrRegisterInterest (dfltChunk 4) v [c] ([], [], ?s0) of
               (r, toRead', toWaitFor', sm') \<Rightarrow>
                 r = Inr () \<and> toRead' = [] \<and> toWaitFor' = [] @ [j]
                 \<and> fifo_list (queue sm' j) = fifo_list (queue ?s0 j) @ [v]
                 \<and> fifo_ok (queue sm' j)
                 \<and> chunk_getVisitId sm' j = chunk_getVisitId ?s0 j
                 \<and> getId (entries (chunks sm') ! j) = getId (entries (chunks ?s0) ! j))"
    by (rule conjunct1)
  from this[rule_format, of 200 0 4] f0 have
    a: "fifo_list (queue ?s1 0) = [2, 3, 4]" "chunk_getVisitId ?s1 0 = 1"
    unfolding s1 by (auto split: prod.splits)
  text \<open>the end of visit 1\<close>
  have ok1: "hs_ok (chunks ?s1)"
    by (rule hs_ok_small[where n = 4]) (code_simp, simp, simp, code_simp)
  have tk1: "hs_ok ?t1"
    by (rule hs_ok_small[where n = 4]) (code_simp, simp, simp, code_simp)
  have r1: "relinquishable tr0 1 ?s1" "owned 1 ?s1 0" "waiting ?t1 ?s1 0 = [2, 3, 4]"
    "length (entries (chunks ?s1)) = 4"
    by code_simp+
  have s2: "?s2 = fst (snd (relinquishOwnership ops0 tr0 1 False ?t1 ?s1))"
    by code_simp
  from fifo_handoff[OF ok1 tk1, where tr = tr0 and visit = 1 and ops = ops0 and rb = False]
  have "relinquishable tr0 1 ?s1 \<longrightarrow>
            (case relinquishOwnership ops0 tr0 1 False ?t1 ?s1 of
               (r, sm', evs) \<Rightarrow>
                 r = Inr (\<exists>j < length (entries (chunks ?s1)).
                            owned 1 ?s1 j \<and> waiting ?t1 ?s1 j \<noteq> [])
                 \<and> hs_ok (chunks sm')
                 \<and> (\<forall>j < length (entries (chunks ?s1)).
                       owned 1 ?s1 j \<longrightarrow> handed_over ?t1 ?s1 sm' j))"
    by (rule conjunct2)
  with r1 have "handed_over ?t1 ?s1 ?s2 0"
    unfolding s2 by (auto split: prod.splits)
  then have b: "chunk_getVisitId ?s2 0 = 2" "fifo_list (queue ?s2 0) = [3, 4]"
    by (simp_all add: handed_over_def r1)
  text \<open>the end of visit 2\<close>
  have ok2: "hs_ok (chunks ?s2)"
    by (rule hs_ok_small[where n = 4]) (code_simp, simp, simp, code_simp)
  have tk2: "hs_ok ?t2"
    by (rule hs_ok_small[where n = 4]) (code_simp, simp, simp, code_simp)
  have r2: "relinquishable tr0 2 ?s2" "owned 2 ?s2 0" "waiting ?t2 ?s2 0 = [3, 4]"
    "length (entries (chunks ?s2)) = 4"
    by code_simp+
  have s3: "?s3 = fst (snd (relinquishOwnership ops0 tr0 2 False ?t2 ?s2))"
    by code_simp
  from fifo_handoff[OF ok2 tk2, where tr = tr0 and visit = 2 and ops = ops0 and rb = False]
  have "relinquishable tr0 2 ?s2 \<longrightarrow>
            (case relinquishOwnership ops0 tr0 2 False ?t2 ?s2 of
               (r, sm', evs) \<Rightarrow>
                 r = Inr (\<exists>j < length (entries (chunks ?s2)).
                            owned 2 ?s2 j \<and> waiting ?t2 ?s2 j \<noteq> [])
                 \<and> hs_ok (chunks sm')
                 \<and> (\<forall>j < length (entries (chunks ?s2)).
                       owned 2 ?s2 j \<longrightarrow> handed_over ?t2 ?s2 sm' j))"
    by (rule conjunct2)
  with r2 have "handed_over ?t2 ?s2 ?s3 0"
    unfolding s3 by (auto split: prod.splits)
  then have c: "chunk_getVisitId ?s3 0 = 3" "fifo_list (queue ?s3 0) = [4]"
    by (simp_all add: handed_over_def r2)
  from f0(4) a b c show ?thesis by simp
qed


end
